theory Spec2Isabelle
  imports Complex_Main
begin

section \<open>NumPy arrays and Python values\<close>

text \<open>
  A NumPy array is a shape together with its elements in row-major (C) order, which is
  how NumPy stores a freshly built array. A zero-dimensional array (a NumPy scalar) has
  the empty shape and one element.
\<close>

datatype 'a ndarray = NdArray (shape: "nat list") (elems: "'a list")

text \<open>
  The exceptions the embedded code can raise. \<open>ValueErrorAt i\<close> is the ValueError of
  \<open>Sensitivity.bootstrapping\<close> whose message names position \<open>i\<close> of \<open>estimator_inputs\<close>.
  \<open>OutsideModel\<close> is not a Python exception: it marks a NumPy call on array ranks that this
  development does not model, and no theorem below relies on it as behaviour of the code.
\<close>

datatype error =
    ValueError
  | ValueErrorAt nat
  | TypeError
  | IndexError
  | BeartypeCallHintParamViolation
  | OutsideModel

definition ndim :: "'a ndarray \<Rightarrow> nat" where
  "ndim a = length (shape a)"

definition np_zeros :: "nat list \<Rightarrow> real ndarray" where
  "np_zeros s = NdArray s (replicate (prod_list s) 0)"

text \<open>Reading and writing one cell of a two-dimensional array, \<open>a[i, j]\<close>.\<close>

definition at2 :: "'a ndarray \<Rightarrow> nat \<Rightarrow> nat \<Rightarrow> 'a" where
  "at2 a i j = elems a ! (i * (shape a ! 1) + j)"

definition set2 :: "'a ndarray \<Rightarrow> nat \<Rightarrow> nat \<Rightarrow> 'a \<Rightarrow> 'a ndarray" where
  "set2 a i j v = NdArray (shape a) ((elems a)[i * (shape a ! 1) + j := v])"

text \<open>Reading one cell of a three-dimensional array, \<open>a[i, j, k]\<close>.\<close>

definition at3 :: "'a ndarray \<Rightarrow> nat \<Rightarrow> nat \<Rightarrow> nat \<Rightarrow> 'a" where
  "at3 a i j k = elems a ! ((i * (shape a ! 1) + j) * (shape a ! 2) + k)"

definition np_arange :: "nat \<Rightarrow> nat ndarray" where
  "np_arange n = NdArray [n] [0..<n]"

text \<open>Multi-indices and flat positions of the row-major layout.\<close>

fun unravel :: "nat list \<Rightarrow> nat \<Rightarrow> nat list" where
  "unravel [] q = []"
| "unravel (s # ss) q = (q div prod_list ss) # unravel ss (q mod prod_list ss)"

fun ravel :: "nat list \<Rightarrow> nat list \<Rightarrow> nat" where
  "ravel (s # ss) (i # is) = i * prod_list ss + ravel ss is"
| "ravel _ _ = 0"

text \<open>\<open>a.T\<close>: the axes reversed; cell \<open>idx\<close> of the result is cell \<open>rev idx\<close> of \<open>a\<close>.\<close>

definition np_T :: "'a ndarray \<Rightarrow> 'a ndarray" where
  "np_T a = NdArray (rev (shape a))
     (map (\<lambda>q. elems a ! ravel (shape a) (rev (unravel (rev (shape a)) q)))
        [0..<prod_list (shape a)])"

text \<open>
  The stop of a Python slice \<open>[:p]\<close> over \<open>n\<close> items: a negative \<open>p\<close> counts from the
  end, and the stop is clamped to the length.
\<close>

definition slice_stop :: "nat \<Rightarrow> int \<Rightarrow> nat" where
  "slice_stop n p = (if p < 0 then nat (int n + p) else min n (nat p))"

text \<open>
  \<open>a[:, :p]\<close>: every row keeps its first columns. An array with fewer than two axes has
  no second axis to slice (IndexError: too many indices).
\<close>

definition take_columns :: "'a ndarray \<Rightarrow> int \<Rightarrow> error + 'a ndarray" where
  "take_columns a p =
     (case shape a of
        r # c # rest \<Rightarrow>
          Inr (NdArray (r # slice_stop c p # rest)
                 (concat (map (\<lambda>i. take (slice_stop c p * prod_list rest)
                                      (drop (i * (c * prod_list rest)) (elems a)))
                            [0..<r])))
      | _ \<Rightarrow> Inl IndexError)"

section \<open>GrassmannianKernel.calculate\_kernel\_matrix\<close>

text \<open>
  Modelled from the spec: \<open>UQpy.utilities.GrassmannPoint\<close> is not among the sources. The
  spec describes a point as a two-dimensional numeric coordinate block; the model is its
  \<open>data\<close> attribute, and the constructor stores the array it is given.
\<close>

datatype GrassmannPoint = GrassmannPoint (data: "real ndarray")

text \<open>Python's \<open>not p\<close> for \<open>p: int = None\<close>: true for \<open>None\<close> and for \<open>0\<close>.\<close>

definition py_not :: "int option \<Rightarrow> bool" where
  "py_not p = (case p of None \<Rightarrow> True | Some v \<Rightarrow> v = 0)"

text \<open>\<open>itertools.combinations_with_replacement(xs, 2)\<close>, in the order itertools emits.\<close>

fun combinations_with_replacement2 :: "'a list \<Rightarrow> ('a \<times> 'a) list" where
  "combinations_with_replacement2 [] = []"
| "combinations_with_replacement2 (x # xs) =
     map (Pair x) (x # xs) @ combinations_with_replacement2 xs"

text \<open>
  Lines 31--36: the point handed to \<open>kernel_entry\<close>, either the point itself or a new
  point holding the first \<open>p\<close> columns of its data.
\<close>

definition truncate_point :: "int option \<Rightarrow> GrassmannPoint \<Rightarrow> error + GrassmannPoint" where
  "truncate_point p x =
     (if py_not p then Inr x
      else case p of
             None \<Rightarrow> Inr x
           | Some v \<Rightarrow> (case take_columns (data x) v of
                          Inl e \<Rightarrow> Inl e
                        | Inr d \<Rightarrow> Inr (GrassmannPoint d)))"

text \<open>
  One iteration of the loop of lines 28--40. The loop state is the kernel matrix and the
  log of the index pairs on which \<open>kernel_entry\<close> has been evaluated; \<open>kernel_entry\<close>, the
  abstract method of the concrete kernel, is a parameter.
\<close>

definition kernel_step ::
  "(GrassmannPoint \<Rightarrow> GrassmannPoint \<Rightarrow> real) \<Rightarrow> GrassmannPoint list \<Rightarrow> int option \<Rightarrow>
   nat \<times> nat \<Rightarrow> real ndarray \<times> (nat \<times> nat) list \<Rightarrow>
   error + real ndarray \<times> (nat \<times> nat) list" where
  "kernel_step kernel_entry points p ij st =
     (case truncate_point p (points ! fst ij) of
        Inl e \<Rightarrow> Inl e
      | Inr xi \<Rightarrow>
         (case truncate_point p (points ! snd ij) of
            Inl e \<Rightarrow> Inl e
          | Inr xj \<Rightarrow>
              (let kernel1 = set2 (fst st) (fst ij) (snd ij) (kernel_entry xi xj);
                   kernel2 = set2 kernel1 (snd ij) (fst ij) (at2 kernel1 (fst ij) (snd ij))
               in Inr (kernel2, snd st @ [ij]))))"

fun kernel_loop ::
  "(GrassmannPoint \<Rightarrow> GrassmannPoint \<Rightarrow> real) \<Rightarrow> GrassmannPoint list \<Rightarrow> int option \<Rightarrow>
   (nat \<times> nat) list \<Rightarrow> real ndarray \<times> (nat \<times> nat) list \<Rightarrow>
   error + real ndarray \<times> (nat \<times> nat) list" where
  "kernel_loop kernel_entry points p [] st = Inr st"
| "kernel_loop kernel_entry points p (ij # pairs) st =
     (case kernel_step kernel_entry points p ij st of
        Inl e \<Rightarrow> Inl e
      | Inr st' \<Rightarrow> kernel_loop kernel_entry points p pairs st')"

definition calculate_kernel_matrix ::
  "(GrassmannPoint \<Rightarrow> GrassmannPoint \<Rightarrow> real) \<Rightarrow> GrassmannPoint list \<Rightarrow> int option \<Rightarrow>
   error + real ndarray \<times> (nat \<times> nat) list" where
  "calculate_kernel_matrix kernel_entry points p =
     (let nargs = length points;
          indices = [0..<nargs];
          pairs = combinations_with_replacement2 indices;
          kernel = np_zeros [nargs, nargs]
      in kernel_loop kernel_entry points p pairs (kernel, []))"

section \<open>Sensitivity: the bootstrap resampling generators\<close>

text \<open>
  \<open>np.random.randint(0, high=h, size=shape)\<close> draws from NumPy's global random state. The
  random source is a parameter: given \<open>h\<close>, the shape and the state \<open>'s\<close> of the source, it
  returns the index array and the next state.
\<close>

type_synonym 's randint = "nat \<Rightarrow> nat list \<Rightarrow> 's \<Rightarrow> nat ndarray \<times> 's"

text \<open>
  \<open>samples[_indices]\<close> with a one-dimensional index array: the rows of \<open>samples\<close> named by the
  indices, in their order. An index past the first axis is an IndexError.
\<close>

definition gather_rows :: "'a ndarray \<Rightarrow> nat ndarray \<Rightarrow> error + 'a ndarray" where
  "gather_rows a idx =
     (case shape a of
        n # rest \<Rightarrow>
          (case shape idx of
             [r] \<Rightarrow>
               if list_all (\<lambda>i. i < n) (elems idx)
               then Inr (NdArray (r # rest)
                      (concat (map (\<lambda>x. take (prod_list rest)
                                           (drop (elems idx ! x * prod_list rest) (elems a)))
                                 [0..<r])))
               else Inl IndexError
           | _ \<Rightarrow> Inl OutsideModel)
      | [] \<Rightarrow> Inl IndexError)"

text \<open>
  \<open>samples[_indices, cols]\<close> on a two-dimensional array, with \<open>_indices\<close> of shape \<open>(r, c)\<close> and
  \<open>cols\<close> of shape \<open>(c,)\<close>: NumPy broadcasts \<open>cols\<close> along the rows of \<open>_indices\<close>, and cell
  \<open>(x, y)\<close> of the result is \<open>samples[_indices[x, y], cols[y]]\<close>.
\<close>

definition adv_index2 :: "'a ndarray \<Rightarrow> nat ndarray \<Rightarrow> nat ndarray \<Rightarrow> error + 'a ndarray" where
  "adv_index2 a idx cols =
     (case shape a of
        [n, m] \<Rightarrow>
          (case shape idx of
             [r, c] \<Rightarrow>
               if shape cols = [c] then
                 if list_all (\<lambda>i. i < n) (elems idx) \<and> list_all (\<lambda>j. j < m) (elems cols)
                 then Inr (NdArray [r, c]
                        (concat (map (\<lambda>x. map (\<lambda>y. elems a ! (elems idx ! (x * c + y) * m
                                                              + elems cols ! y))
                                               [0..<c])
                                   [0..<r])))
                 else Inl IndexError
               else Inl OutsideModel
           | _ \<Rightarrow> Inl OutsideModel)
      | _ \<Rightarrow> Inl OutsideModel)"

text \<open>
  \<open>samples[:, _indices, cols]\<close> on a three-dimensional array: the same gather in every slice
  along the first axis; cell \<open>(k, x, y)\<close> of the result is
  \<open>samples[k, _indices[x, y], cols[y]]\<close>.
\<close>

definition adv_index3 :: "'a ndarray \<Rightarrow> nat ndarray \<Rightarrow> nat ndarray \<Rightarrow> error + 'a ndarray" where
  "adv_index3 a idx cols =
     (case shape a of
        [d, n, m] \<Rightarrow>
          (case shape idx of
             [r, c] \<Rightarrow>
               if shape cols = [c] then
                 if list_all (\<lambda>i. i < n) (elems idx) \<and> list_all (\<lambda>j. j < m) (elems cols)
                 then Inr (NdArray [d, r, c]
                        (concat (map (\<lambda>k.
                           concat (map (\<lambda>x. map (\<lambda>y. elems a ! ((k * n + elems idx ! (x * c + y)) * m
                                                                + elems cols ! y))
                                                 [0..<c])
                                     [0..<r]))
                           [0..<d])))
                 else Inl IndexError
               else Inl OutsideModel
           | _ \<Rightarrow> Inl OutsideModel)
      | _ \<Rightarrow> Inl OutsideModel)"

text \<open>
  A generator is the array it resamples; advancing it runs the body of its \<open>while True\<close>
  loop once, up to the \<open>yield\<close>. The lines before the loop read the shape, so an array with
  too few axes raises IndexError on the first advance.
\<close>

datatype 'a generator = Gen1D "'a ndarray" | Gen2D "'a ndarray" | Gen3D "'a ndarray"

definition bootstrap_sample_generator_1D_next ::
  "'s randint \<Rightarrow> 'a ndarray \<Rightarrow> 's \<Rightarrow> (error + 'a ndarray) \<times> 's" where
  "bootstrap_sample_generator_1D_next randint samples s =
     (case shape samples of
        [] \<Rightarrow> (Inl IndexError, s)
      | n_samples # rest \<Rightarrow>
          (case randint n_samples [n_samples] s of
             (indices, s') \<Rightarrow> (gather_rows samples indices, s')))"

definition bootstrap_sample_generator_2D_next ::
  "'s randint \<Rightarrow> 'a ndarray \<Rightarrow> 's \<Rightarrow> (error + 'a ndarray) \<times> 's" where
  "bootstrap_sample_generator_2D_next randint samples s =
     (case shape samples of
        n_samples # num_cols # rest \<Rightarrow>
          (let cols = np_arange num_cols
           in case randint n_samples (shape samples) s of
                (indices, s') \<Rightarrow> (adv_index2 samples indices cols, s'))
      | _ \<Rightarrow> (Inl IndexError, s))"

definition bootstrap_sample_generator_3D_next ::
  "'s randint \<Rightarrow> 'a ndarray \<Rightarrow> 's \<Rightarrow> (error + 'a ndarray) \<times> 's" where
  "bootstrap_sample_generator_3D_next randint samples s =
     (case shape samples of
        d # n_samples # num_cols # rest \<Rightarrow>
          (let array_shape = tl (shape samples);
               cols = np_arange num_cols
           in case randint n_samples array_shape s of
                (indices, s') \<Rightarrow> (adv_index3 samples indices cols, s'))
      | _ \<Rightarrow> (Inl IndexError, s))"

definition generator_next ::
  "'s randint \<Rightarrow> 'a generator \<Rightarrow> 's \<Rightarrow> (error + 'a ndarray) \<times> 's" where
  "generator_next randint g s =
     (case g of
        Gen1D samples \<Rightarrow> bootstrap_sample_generator_1D_next randint samples s
      | Gen2D samples \<Rightarrow> bootstrap_sample_generator_2D_next randint samples s
      | Gen3D samples \<Rightarrow> bootstrap_sample_generator_3D_next randint samples s)"

section \<open>Sensitivity.bootstrapping\<close>

text \<open>
  An element of \<open>estimator_inputs\<close>: a NumPy array, \<open>None\<close>, or a value of any other type.
\<close>

datatype 'a estimator_input = ArrayInput "'a ndarray" | NoneInput | OtherInput

text \<open>
  Lines 253--279: the loop that builds \<open>input_generators\<close>; \<open>i\<close> is the position that
  \<open>enumerate\<close> counts. An array that matches none of the three shape tests falls out of the
  inner \<open>if\<close>/\<open>elif\<close> chain, which has no \<open>else\<close>: nothing is appended and nothing is raised.
\<close>

fun create_generators ::
  "nat \<Rightarrow> 'a estimator_input list \<Rightarrow> 'a generator option list \<Rightarrow>
   error + 'a generator option list" where
  "create_generators i [] input_generators = Inr input_generators"
| "create_generators i (ArrayInput a # rest) input_generators =
     (if ndim a = 2 \<and> shape a ! 1 = 1
        then create_generators (i + 1) rest (input_generators @ [Some (Gen1D a)])
      else if ndim a = 2 \<and> shape a ! 1 > 1
        then create_generators (i + 1) rest (input_generators @ [Some (Gen2D a)])
      else if ndim a = 3
        then create_generators (i + 1) rest (input_generators @ [Some (Gen3D a)])
      else create_generators (i + 1) rest input_generators)"
| "create_generators i (NoneInput # rest) input_generators =
     create_generators (i + 1) rest (input_generators @ [None])"
| "create_generators i (OtherInput # rest) input_generators = Inl (ValueErrorAt i)"

text \<open>
  The bootstrapped results are floating-point numbers. A float is a finite value, an
  infinity or NaN; arithmetic on the special values follows IEEE 754, and arithmetic on
  finite values is exact (rounding, overflow and the sign of zero are not modelled; a zero
  divisor counts as \<open>+0.0\<close>). Since a double rounds where a real does not, nothing is
  stated below about which finite inputs give a finite result: the statements about
  finite values are the formulas themselves, the facts \<open>x * 0 = 0\<close>, \<open>x + 0 = x\<close> and
  \<open>x - 0 = x\<close>, and evaluations at small integers and halves, all of which hold of
  doubles as well.
\<close>

datatype fl = Fin real | PInf | NInf | NaN

fun fl_neg :: "fl \<Rightarrow> fl" where
  "fl_neg (Fin x) = Fin (- x)"
| "fl_neg PInf = NInf"
| "fl_neg NInf = PInf"
| "fl_neg NaN = NaN"

fun fl_add :: "fl \<Rightarrow> fl \<Rightarrow> fl" where
  "fl_add NaN _ = NaN"
| "fl_add _ NaN = NaN"
| "fl_add (Fin x) (Fin y) = Fin (x + y)"
| "fl_add PInf NInf = NaN"
| "fl_add NInf PInf = NaN"
| "fl_add PInf _ = PInf"
| "fl_add _ PInf = PInf"
| "fl_add NInf _ = NInf"
| "fl_add _ NInf = NInf"

definition fl_sub :: "fl \<Rightarrow> fl \<Rightarrow> fl" where
  "fl_sub a b = fl_add a (fl_neg b)"

fun fl_mul :: "fl \<Rightarrow> fl \<Rightarrow> fl" where
  "fl_mul NaN _ = NaN"
| "fl_mul _ NaN = NaN"
| "fl_mul (Fin x) (Fin y) = Fin (x * y)"
| "fl_mul (Fin x) PInf = (if x = 0 then NaN else if 0 < x then PInf else NInf)"
| "fl_mul (Fin x) NInf = (if x = 0 then NaN else if 0 < x then NInf else PInf)"
| "fl_mul PInf (Fin y) = (if y = 0 then NaN else if 0 < y then PInf else NInf)"
| "fl_mul NInf (Fin y) = (if y = 0 then NaN else if 0 < y then NInf else PInf)"
| "fl_mul PInf PInf = PInf"
| "fl_mul NInf NInf = PInf"
| "fl_mul PInf NInf = NInf"
| "fl_mul NInf PInf = NInf"

fun fl_div :: "fl \<Rightarrow> fl \<Rightarrow> fl" where
  "fl_div NaN _ = NaN"
| "fl_div _ NaN = NaN"
| "fl_div (Fin x) (Fin y) =
     (if y = 0 then (if x = 0 then NaN else if 0 < x then PInf else NInf) else Fin (x / y))"
| "fl_div (Fin x) _ = Fin 0"
| "fl_div PInf (Fin y) = (if 0 \<le> y then PInf else NInf)"
| "fl_div NInf (Fin y) = (if 0 \<le> y then NInf else PInf)"
| "fl_div _ _ = NaN"

fun fl_sqrt :: "fl \<Rightarrow> fl" where
  "fl_sqrt (Fin x) = (if x < 0 then NaN else Fin (sqrt x))"
| "fl_sqrt PInf = PInf"
| "fl_sqrt _ = NaN"

definition fl_sum :: "fl list \<Rightarrow> fl" where
  "fl_sum xs = foldl fl_add (Fin 0) xs"

text \<open>
  \<open>np.std(a, ddof=1)\<close> of one row, as NumPy computes it: the mean, the squared deviations
  from it, their sum divided by \<open>max(N - ddof, 0)\<close>, and the square root.
\<close>

definition np_std_ddof1 :: "fl list \<Rightarrow> fl" where
  "np_std_ddof1 xs =
     (let arrmean = fl_div (fl_sum xs) (Fin (real (length xs)));
          x = map (\<lambda>v. fl_sub v arrmean) xs;
          sq = map (\<lambda>v. fl_mul v v) x
      in fl_sqrt (fl_div (fl_sum sq) (Fin (real (length xs - 1)))))"

text \<open>
  \<open>scipy.stats.norm.ppf\<close>: the inverse of the standard normal distribution function
  inside \<open>(0, 1)\<close>, which is the parameter \<open>ndtri\<close>; minus and plus infinity at 0 and 1; NaN
  elsewhere.
\<close>

definition norm_ppf :: "(real \<Rightarrow> real) \<Rightarrow> fl \<Rightarrow> fl" where
  "norm_ppf ndtri q =
     (case q of
        Fin x \<Rightarrow> if 0 < x \<and> x < 1 then Fin (ndtri x)
                 else if x = 0 then NInf else if x = 1 then PInf else NaN
      | _ \<Rightarrow> NaN)"

text \<open>The slices read and written by the confidence-interval loop.\<close>

definition row3 :: "'a ndarray \<Rightarrow> nat \<Rightarrow> nat \<Rightarrow> 'a list" where
  \<comment> \<open>\<open>a[i, j, :]\<close>\<close>
  "row3 a i j = take (shape a ! 2) (drop ((i * (shape a ! 1) + j) * (shape a ! 2)) (elems a))"

definition column2 :: "'a ndarray \<Rightarrow> nat \<Rightarrow> 'a list" where
  \<comment> \<open>\<open>a[:, j]\<close>\<close>
  "column2 a j = map (\<lambda>i. at2 a i j) [0..<shape a ! 0]"

definition assign_column3 :: "'a ndarray \<Rightarrow> nat \<Rightarrow> nat \<Rightarrow> 'a list \<Rightarrow> 'a ndarray" where
  \<comment> \<open>\<open>a[i, :, k] = v\<close>, for \<open>v\<close> with one item per row of the slice\<close>
  "assign_column3 a i k v =
     NdArray (shape a)
       (map (\<lambda>pos. if unravel (shape a) pos ! 0 = i \<and> unravel (shape a) pos ! 2 = k
                    then v ! (unravel (shape a) pos ! 1) else elems a ! pos)
          [0..<length (elems a)])"

text \<open>
  Lines 301--318, given the accumulator \<open>bootstrapped_qoi\<close> that the resampling loop has
  filled: one iteration of the loop over the output channels, the loop, and the return
  value, which drops the first axis when there is exactly one output channel.
\<close>

definition confidence_interval_step ::
  "fl \<Rightarrow> fl ndarray \<Rightarrow> fl ndarray \<Rightarrow> nat \<Rightarrow> fl ndarray \<Rightarrow> nat \<Rightarrow> fl ndarray" where
  "confidence_interval_step delta qoi_mean bootstrapped_qoi n_qois confidence_interval_qoi output_j =
     (let std_qoi = map (\<lambda>q. np_std_ddof1 (row3 bootstrapped_qoi output_j q)) [0..<n_qois];
          lower_bound = map2 (\<lambda>m s. fl_sub m (fl_mul delta s)) (column2 qoi_mean output_j) std_qoi;
          upper_bound = map2 (\<lambda>m s. fl_add m (fl_mul delta s)) (column2 qoi_mean output_j) std_qoi;
          ci1 = assign_column3 confidence_interval_qoi output_j 0 lower_bound
      in assign_column3 ci1 output_j 1 upper_bound)"

definition confidence_interval ::
  "(real \<Rightarrow> real) \<Rightarrow> fl ndarray \<Rightarrow> fl \<Rightarrow> fl ndarray \<Rightarrow> fl ndarray" where
  "confidence_interval ndtri qoi_mean confidence_level bootstrapped_qoi =
     (let n_qois = shape qoi_mean ! 0;
          n_outputs = shape qoi_mean ! 1;
          delta = fl_neg (norm_ppf ndtri (fl_div (fl_sub (Fin 1) confidence_level) (Fin 2)));
          confidence_interval_qoi =
            foldl (confidence_interval_step delta qoi_mean bootstrapped_qoi n_qois)
              (NdArray [n_outputs, n_qois, 2] (replicate (n_outputs * n_qois * 2) (Fin 0)))
              [0..<n_outputs]
      in if n_outputs = 1
         then NdArray [n_qois, 2] (take (n_qois * 2) (elems confidence_interval_qoi))
         else confidence_interval_qoi)"

text \<open>
  The two bounds that the loop writes for output channel \<open>output_j\<close> and quantity \<open>q\<close>
  (position \<open>k = 0\<close> the lower bound, position 1 the upper bound).
\<close>

definition ci_value :: "fl \<Rightarrow> fl ndarray \<Rightarrow> fl ndarray \<Rightarrow> nat \<Rightarrow> nat \<Rightarrow> nat \<Rightarrow> fl" where
  "ci_value delta qoi_mean bootstrapped_qoi output_j q k =
     (if k = 0
      then fl_sub (at2 qoi_mean q output_j)
             (fl_mul delta (np_std_ddof1 (row3 bootstrapped_qoi output_j q)))
      else fl_add (at2 qoi_mean q output_j)
             (fl_mul delta (np_std_ddof1 (row3 bootstrapped_qoi output_j q))))"

text \<open>
  Lines 284--296, the resampling loop. \<open>draw_args\<close> advances every generator once, in order,
  and passes \<open>None\<close> through; the estimator is a parameter that receives the argument list
  and may raise.
\<close>

fun draw_args ::
  "'s randint \<Rightarrow> 'a generator option list \<Rightarrow> 's \<Rightarrow> (error + 'a ndarray option list) \<times> 's" where
  "draw_args randint [] s = (Inr [], s)"
| "draw_args randint (None # gens) s =
     (case draw_args randint gens s of
        (Inl e, s') \<Rightarrow> (Inl e, s')
      | (Inr args, s') \<Rightarrow> (Inr (None # args), s'))"
| "draw_args randint (Some g # gens) s =
     (case generator_next randint g s of
        (Inl e, s') \<Rightarrow> (Inl e, s')
      | (Inr a, s') \<Rightarrow>
          (case draw_args randint gens s' of
             (Inl e, s'') \<Rightarrow> (Inl e, s'')
           | (Inr args, s'') \<Rightarrow> (Inr (Some a # args), s'')))"

text \<open>
  \<open>a[:, :, j] = v\<close> for a three-dimensional \<open>a\<close>: NumPy broadcasts \<open>v\<close> to the shape of the
  slice (an axis of length one is repeated, missing leading axes are added) and raises
  ValueError when it cannot.
\<close>

definition assign_slab3 :: "'a ndarray \<Rightarrow> nat \<Rightarrow> 'a ndarray \<Rightarrow> error + 'a ndarray" where
  "assign_slab3 a j v =
     (case shape a of
        [A, Q, N] \<Rightarrow>
          (case shape v of
             [] \<Rightarrow>
               Inr (NdArray (shape a)
                 (map (\<lambda>pos. if unravel (shape a) pos ! 2 = j then elems v ! 0 else elems a ! pos)
                    [0..<length (elems a)]))
           | [c] \<Rightarrow>
               if c = Q \<or> c = 1
               then Inr (NdArray (shape a)
                 (map (\<lambda>pos. if unravel (shape a) pos ! 2 = j
                              then elems v ! (if c = 1 then 0 else unravel (shape a) pos ! 1)
                              else elems a ! pos)
                    [0..<length (elems a)]))
               else Inl ValueError
           | [r, c] \<Rightarrow>
               if (r = A \<or> r = 1) \<and> (c = Q \<or> c = 1)
               then Inr (NdArray (shape a)
                 (map (\<lambda>pos. if unravel (shape a) pos ! 2 = j
                              then elems v ! ((if r = 1 then 0 else unravel (shape a) pos ! 0) * c
                                               + (if c = 1 then 0 else unravel (shape a) pos ! 1))
                              else elems a ! pos)
                    [0..<length (elems a)]))
               else Inl ValueError
           | _ \<Rightarrow> Inl OutsideModel)
      | _ \<Rightarrow> Inl OutsideModel)"

fun bootstrap_loop ::
  "'s randint \<Rightarrow> ('a ndarray option list \<Rightarrow> error + fl ndarray) \<Rightarrow> 'a generator option list \<Rightarrow>
   nat \<Rightarrow> nat \<Rightarrow> fl ndarray \<Rightarrow> 's \<Rightarrow> (error + fl ndarray) \<times> 's" where
  "bootstrap_loop randint estimator input_generators 0 j bootstrapped_qoi s =
     (Inr bootstrapped_qoi, s)"
| "bootstrap_loop randint estimator input_generators (Suc remaining) j bootstrapped_qoi s =
     (case draw_args randint input_generators s of
        (Inl e, s') \<Rightarrow> (Inl e, s')
      | (Inr args, s') \<Rightarrow>
          (case estimator args of
             Inl e \<Rightarrow> (Inl e, s')
           | Inr result \<Rightarrow>
               (case assign_slab3 bootstrapped_qoi j (np_T result) of
                  Inl e \<Rightarrow> (Inl e, s')
                | Inr b \<Rightarrow> bootstrap_loop randint estimator input_generators remaining (Suc j) b s')))"

text \<open>
  The whole method. \<open>qoi_mean\<close> is documented to have shape \<open>(n_qois, n_outputs)\<close>; with fewer
  axes line 238 raises IndexError. A negative \<open>num_bootstrap_samples\<close> is refused by
  \<open>np.zeros\<close>.
\<close>

definition bootstrapping ::
  "'s randint \<Rightarrow> (real \<Rightarrow> real) \<Rightarrow> ('a ndarray option list \<Rightarrow> error + fl ndarray) \<Rightarrow>
   'a estimator_input list \<Rightarrow> fl ndarray \<Rightarrow> int \<Rightarrow> fl \<Rightarrow> 's \<Rightarrow> (error + fl ndarray) \<times> 's" where
  "bootstrapping randint ndtri estimator estimator_inputs qoi_mean num_bootstrap_samples
     confidence_level s =
     (case shape qoi_mean of
        [n_qois, n_outputs] \<Rightarrow>
          if num_bootstrap_samples < 0 then (Inl ValueError, s)
          else
            (case create_generators 0 estimator_inputs [] of
               Inl e \<Rightarrow> (Inl e, s)
             | Inr input_generators \<Rightarrow>
                 (case bootstrap_loop randint estimator input_generators
                         (nat num_bootstrap_samples) 0
                         (NdArray [n_outputs, n_qois, nat num_bootstrap_samples]
                            (replicate (n_outputs * n_qois * nat num_bootstrap_samples) (Fin 0)))
                         s of
                    (Inl e, s') \<Rightarrow> (Inl e, s')
                  | (Inr bootstrapped_qoi, s') \<Rightarrow>
                      (Inr (confidence_interval ndtri qoi_mean confidence_level bootstrapped_qoi),
                       s')))
      | _ # _ # _ # _ \<Rightarrow> (Inl OutsideModel, s)
      | _ \<Rightarrow> (Inl IndexError, s))"

section \<open>MonteCarloSampling\<close>

text \<open>
  The elements of the arrays the sampler handles: floating-point draws (taken as reals;
  the claims about them are about equality and position, not arithmetic), \<open>None\<close>, and,
  in an array of dtype \<open>object\<close>, a whole array. NumPy builds such an object array when
  \<open>np.array\<close> is given arrays of different shapes, which is what the sampler relies on for
  a list that mixes distributions of different dimension.
\<close>

datatype val = F real | PyNone | Obj "val ndarray"

subsection \<open>The NumPy calls of \<open>run\<close>\<close>

text \<open>\<open>len(a)\<close>: the length of the first axis; a zero-dimensional array has no length.\<close>

definition py_len :: "'a ndarray \<Rightarrow> error + nat" where
  "py_len a = (case shape a of [] \<Rightarrow> Inl TypeError | n # rest \<Rightarrow> Inr n)"

text \<open>
  \<open>a[j]\<close> for \<open>j \<ge> 0\<close>: the \<open>j\<close>-th item along the first axis. An item of a one-dimensional
  object array is the array it holds.
\<close>

fun unbox :: "val ndarray \<Rightarrow> val ndarray" where
  "unbox (NdArray [] [Obj b]) = b"
| "unbox a = a"

definition getitem0 :: "val ndarray \<Rightarrow> nat \<Rightarrow> error + val ndarray" where
  "getitem0 a j =
     (case shape a of
        [] \<Rightarrow> Inl IndexError
      | n # rest \<Rightarrow>
          if j < n
          then Inr (unbox (NdArray rest (take (prod_list rest) (drop (j * prod_list rest) (elems a)))))
          else Inl IndexError)"

text \<open>
  \<open>np.array(ys)\<close> for a Python list of arrays: the arrays stacked along a new first axis
  when they all have the same shape, and otherwise a one-dimensional object array that
  holds them. The empty list gives the empty one-dimensional array.
\<close>

definition np_array_list :: "val ndarray list \<Rightarrow> val ndarray" where
  "np_array_list ys =
     (case ys of
        [] \<Rightarrow> NdArray [0] []
      | y # rest \<Rightarrow>
          if list_all (\<lambda>z. shape z = shape y) ys
          then NdArray (length ys # shape y) (concat (map elems ys))
          else NdArray [length ys] (map Obj ys))"

text \<open>
  The attribute \<open>self.x\<close>: \<open>None\<close> before the first draw, the array a single distribution
  returned, or the Python list of per-realization arrays built for a list of
  distributions.
\<close>

datatype xval = XNone | XArr "val ndarray" | XList "val ndarray list"

text \<open>\<open>np.array(self.x)\<close>; \<open>np.array(None)\<close> is a zero-dimensional object array.\<close>

definition np_array :: "xval \<Rightarrow> val ndarray" where
  "np_array v =
     (case v of
        XNone \<Rightarrow> NdArray [] [PyNone]
      | XArr a \<Rightarrow> a
      | XList ys \<Rightarrow> np_array_list ys)"

definition np_atleast_1d :: "'a ndarray \<Rightarrow> 'a ndarray" where
  "np_atleast_1d a = (case shape a of [] \<Rightarrow> NdArray [1] (elems a) | _ \<Rightarrow> a)"

definition np_atleast_2d :: "'a ndarray \<Rightarrow> 'a ndarray" where
  "np_atleast_2d a =
     (case shape a of
        [] \<Rightarrow> NdArray [1, 1] (elems a)
      | [n] \<Rightarrow> NdArray [1, n] (elems a)
      | _ \<Rightarrow> a)"

text \<open>
  \<open>np.concatenate(arrs, axis=0)\<close> and \<open>np.concatenate(arrs, axis=1)\<close>: the arrays must have
  the same number of axes, enough of them, and equal lengths on every other axis.
\<close>

definition np_concatenate0 :: "'a ndarray list \<Rightarrow> error + 'a ndarray" where
  "np_concatenate0 arrs =
     (case arrs of
        [] \<Rightarrow> Inl ValueError
      | a # rest \<Rightarrow>
          if list_all (\<lambda>b. 1 \<le> ndim b \<and> ndim b = ndim a \<and> tl (shape b) = tl (shape a)) arrs
          then Inr (NdArray (sum_list (map (\<lambda>b. hd (shape b)) arrs) # tl (shape a))
                      (concat (map elems arrs)))
          else Inl ValueError)"

definition np_concatenate1 :: "'a ndarray list \<Rightarrow> error + 'a ndarray" where
  "np_concatenate1 arrs =
     (case arrs of
        [] \<Rightarrow> Inl ValueError
      | a # rest \<Rightarrow>
          if list_all (\<lambda>b. 2 \<le> ndim b \<and> ndim b = ndim a \<and> hd (shape b) = hd (shape a)
                             \<and> drop 2 (shape b) = drop 2 (shape a)) arrs
          then Inr (NdArray (hd (shape a) # sum_list (map (\<lambda>b. shape b ! 1) arrs) # drop 2 (shape a))
                      (concat (map (\<lambda>i. concat (map (\<lambda>b. take (prod_list (tl (shape b)))
                                                             (drop (i * prod_list (tl (shape b))) (elems b)))
                                                   arrs))
                                 [0..<hd (shape a)])))
          else Inl ValueError)"

text \<open>
  \<open>np.hstack(a)\<close> for an array \<open>a\<close>: the items of \<open>a\<close> along its first axis, each made at
  least one-dimensional, concatenated along the first axis when they are one-dimensional
  and along the second otherwise. A zero-dimensional array cannot be iterated.
\<close>

fun items :: "val ndarray \<Rightarrow> nat list \<Rightarrow> error + val ndarray list" where
  "items a [] = Inr []"
| "items a (i # is) =
     (case getitem0 a i of
        Inl e \<Rightarrow> Inl e
      | Inr v \<Rightarrow> (case items a is of Inl e \<Rightarrow> Inl e | Inr vs \<Rightarrow> Inr (v # vs)))"

definition np_hstack :: "val ndarray \<Rightarrow> error + val ndarray" where
  "np_hstack a =
     (case shape a of
        [] \<Rightarrow> Inl TypeError
      | n # rest \<Rightarrow>
          (case items a [0..<n] of
             Inl e \<Rightarrow> Inl e
           | Inr vs \<Rightarrow>
               (let arrs = map np_atleast_1d vs
                in if arrs \<noteq> [] \<and> ndim (hd arrs) = 1
                   then np_concatenate0 arrs else np_concatenate1 arrs)))"

text \<open>\<open>np.vstack([samples, x])\<close>: both made at least two-dimensional, then joined along axis 0.\<close>

definition np_vstack :: "val ndarray \<Rightarrow> xval \<Rightarrow> error + val ndarray" where
  "np_vstack samples v = np_concatenate0 [np_atleast_2d samples, np_atleast_2d (np_array v)]"


subsection \<open>Distributions and the sampler's state\<close>

text \<open>
  Modelled from the spec: the \<open>Distribution\<close> classes are not among the sources. The spec
  describes a distribution as an object exposing a sampling capability; here it is its
  class, as far as \<open>_process_distributions\<close> tells classes apart, and its optional \<open>rvs\<close>
  method, which takes the number of samples and the state of the random generator it
  draws from and returns the draws with the generator's next state.
\<close>

datatype dist_class = DistributionContinuous1D | DistributionND | OtherDistribution

datatype 'g distribution =
  Distribution (dist_class: dist_class) (rvs: "(nat \<Rightarrow> 'g \<Rightarrow> val ndarray \<times> 'g) option")

datatype 'g dist_object = Single "'g distribution" | DistList "'g distribution list"

text \<open>The \<open>random_state\<close> argument: \<open>None\<close>, an integer seed, or a \<open>RandomState\<close> object.\<close>

datatype 'g random_state_arg = RsNone | RsSeed int | RsState 'g

text \<open>
  The attributes of a \<open>MonteCarloSampling\<close> object, and with them \<open>np_random\<close>, the state of
  NumPy's global generator, which \<open>rvs\<close> draws from when \<open>random_state\<close> is \<open>None\<close>.
\<close>

record 'g MonteCarloSampling =
  mcs_dist_object :: "'g dist_object"
  mcs_list :: bool
  mcs_array :: bool
  mcs_random_state :: "'g option"
  mcs_samples :: "val ndarray option"
  mcs_x :: xval
  mcs_samplesU01 :: "val ndarray option"
  mcs_samples_number :: "int option"
  np_random :: 'g

text \<open>
  Modelled from the spec: \<open>PositiveInteger\<close> of \<open>UQpy.utilities.ValidationTypes\<close> is not among
  the sources. The spec says that the count must be a positive integer and that zero and
  negative counts are rejected.
\<close>

definition PositiveInteger :: "int \<Rightarrow> bool" where
  "PositiveInteger n = (0 < n)"

text \<open>
  Modelled from the spec: \<open>process_random_state\<close> of \<open>UQpy.utilities.Utilities\<close> is not among
  the sources. An integer seed is materialized into a generator state (\<open>RandomState\<close>, a
  parameter, is NumPy's constructor); a generator state and \<open>None\<close> pass through.
\<close>

definition process_random_state :: "(int \<Rightarrow> 'g) \<Rightarrow> 'g random_state_arg \<Rightarrow> 'g option" where
  "process_random_state RandomState random_state =
     (case random_state of
        RsNone \<Rightarrow> None
      | RsSeed seed \<Rightarrow> Some (RandomState seed)
      | RsState g \<Rightarrow> Some g)"

subsection \<open>\<open>_process_distributions\<close>, \<open>run\<close> and \<open>__init__\<close>\<close>

text \<open>
  An element that is not a \<open>Distribution\<close> (the TypeError of line 127) is excluded by the
  type of the list.
\<close>

definition process_distributions :: "'g dist_object \<Rightarrow> bool \<times> bool" where
  \<comment> \<open>the values of \<open>self.list\<close> and \<open>self.array\<close>\<close>
  "process_distributions distributions =
     (case distributions of
        DistList ds \<Rightarrow>
          if length (filter (\<lambda>d. dist_class d = DistributionContinuous1D) ds) = length ds
          then (False, True) else (True, False)
      | Single d \<Rightarrow> (False, True))"

text \<open>
  One call \<open>rvs(nsamples=n, random_state=self.random_state)\<close>: the draw advances the
  sampler's own generator when it has one and NumPy's global generator otherwise.
\<close>

definition call_rvs ::
  "(nat \<Rightarrow> 'g \<Rightarrow> val ndarray \<times> 'g) \<Rightarrow> nat \<Rightarrow> 'g option \<Rightarrow> 'g \<Rightarrow> val ndarray \<times> 'g option \<times> 'g" where
  "call_rvs f n random_state global =
     (case random_state of
        Some g \<Rightarrow> (fst (f n g), Some (snd (f n g)), global)
      | None \<Rightarrow> (fst (f n global), None, snd (f n global)))"

text \<open>Lines 153--159: one draw per distribution, in order; a missing \<open>rvs\<close> raises.\<close>

fun draw_list ::
  "'g distribution list \<Rightarrow> nat \<Rightarrow> 'g option \<Rightarrow> 'g \<Rightarrow> val ndarray list \<Rightarrow>
   (error + val ndarray list) \<times> 'g option \<times> 'g" where
  "draw_list [] n random_state global temp_samples = (Inr temp_samples, random_state, global)"
| "draw_list (d # ds) n random_state global temp_samples =
     (case rvs d of
        None \<Rightarrow> (Inl ValueError, random_state, global)
      | Some f \<Rightarrow>
          (case call_rvs f n random_state global of
             (a, random_state', global') \<Rightarrow>
               draw_list ds n random_state' global' (temp_samples @ [a])))"

text \<open>Lines 160--165: realization \<open>j\<close> collects item \<open>j\<close> of every distribution's draws.\<close>

fun build_y :: "val ndarray list \<Rightarrow> nat \<Rightarrow> error + val ndarray list" where
  "build_y [] j = Inr []"
| "build_y (t # ts) j =
     (case getitem0 t j of
        Inl e \<Rightarrow> Inl e
      | Inr v \<Rightarrow> (case build_y ts j of Inl e \<Rightarrow> Inl e | Inr vs \<Rightarrow> Inr (v # vs)))"

fun build_x ::
  "val ndarray list \<Rightarrow> nat list \<Rightarrow> val ndarray list \<Rightarrow> (error + unit) \<times> val ndarray list" where
  "build_x temp_samples [] xs = (Inr (), xs)"
| "build_x temp_samples (j # js) xs =
     (case build_y temp_samples j of
        Inl e \<Rightarrow> (Inl e, xs)
      | Inr y \<Rightarrow> build_x temp_samples js (xs @ [np_array_list y]))"

text \<open>
  Lines 152--169. For a single distribution without \<open>rvs\<close> the \<open>if hasattr\<close> has no \<open>else\<close>:
  nothing is drawn and \<open>self.x\<close> keeps its value.
\<close>

definition run_draw ::
  "nat \<Rightarrow> 'g MonteCarloSampling \<Rightarrow> (error + unit) \<times> 'g MonteCarloSampling" where
  "run_draw n self =
     (case mcs_dist_object self of
        DistList ds \<Rightarrow>
          (case draw_list ds n (mcs_random_state self) (np_random self) [] of
             (Inl e, random_state', global') \<Rightarrow>
               (Inl e, self\<lparr>mcs_random_state := random_state', np_random := global'\<rparr>)
           | (Inr temp_samples, random_state', global') \<Rightarrow>
               (case build_x temp_samples [0..<n] [] of
                  (r, xs) \<Rightarrow>
                    (r, self\<lparr>mcs_random_state := random_state', np_random := global',
                             mcs_x := XList xs\<rparr>)))
      | Single d \<Rightarrow>
          (case rvs d of
             None \<Rightarrow> (Inr (), self)
           | Some f \<Rightarrow>
               (case call_rvs f n (mcs_random_state self) (np_random self) of
                  (temp_samples, random_state', global') \<Rightarrow>
                    (Inr (), self\<lparr>mcs_random_state := random_state', np_random := global',
                                  mcs_x := XArr temp_samples\<rparr>))))"

text \<open>Lines 171--184: the new value of \<open>self.samples\<close>, then \<open>self.samples_number\<close>.\<close>

definition is_list_array :: "'g MonteCarloSampling \<Rightarrow> bool" where
  \<comment> \<open>\<open>isinstance(self.dist_object, list) and self.array is True\<close>\<close>
  "is_list_array self =
     (case mcs_dist_object self of DistList ds \<Rightarrow> mcs_array self | Single d \<Rightarrow> False)"

definition new_samples :: "'g MonteCarloSampling \<Rightarrow> error + val ndarray" where
  "new_samples self =
     (case mcs_samples self of
        None \<Rightarrow>
          if is_list_array self
          then (case np_hstack (np_array (mcs_x self)) of
                  Inl e \<Rightarrow> Inl e
                | Inr h \<Rightarrow> Inr (np_T h))
          else Inr (np_array (mcs_x self))
      | Some samples \<Rightarrow>
          if is_list_array self
          then (case np_hstack (np_array (mcs_x self)) of
                  Inl e \<Rightarrow> Inl e
                | Inr h \<Rightarrow> np_concatenate0 [samples, np_T h])
          else np_vstack samples (mcs_x self))"

definition run_append :: "'g MonteCarloSampling \<Rightarrow> (error + unit) \<times> 'g MonteCarloSampling" where
  "run_append self =
     (case new_samples self of
        Inl e \<Rightarrow> (Inl e, self)
      | Inr samples \<Rightarrow>
          (case py_len samples of
             Inl e \<Rightarrow> (Inl e, self\<lparr>mcs_samples := Some samples\<rparr>)
           | Inr l \<Rightarrow>
               (Inr (), self\<lparr>mcs_samples := Some samples, mcs_samples_number := Some (int l)\<rparr>)))"

text \<open>
  \<open>run\<close>. The \<open>@beartype\<close> decorator checks \<open>samples_number: PositiveInteger\<close> before the body
  runs; the body then sets the random state, draws and appends.
\<close>

definition run ::
  "(int \<Rightarrow> 'g) \<Rightarrow> int \<Rightarrow> 'g random_state_arg \<Rightarrow> 'g MonteCarloSampling \<Rightarrow>
   (error + unit) \<times> 'g MonteCarloSampling" where
  "run RandomState samples_number random_state self =
     (if PositiveInteger samples_number
      then
        (case run_draw (nat samples_number)
                (self\<lparr>mcs_random_state :=
                   (case random_state of
                      RsNone \<Rightarrow> mcs_random_state self
                    | _ \<Rightarrow> process_random_state RandomState random_state)\<rparr>) of
           (Inl e, self') \<Rightarrow> (Inl e, self')
         | (Inr u, self') \<Rightarrow> run_append self')
      else (Inl BeartypeCallHintParamViolation, self))"

text \<open>
  \<open>__init__\<close>, given the state of NumPy's global generator: it sets the attributes and
  calls \<open>run\<close> when a sample count is given.
\<close>

definition MonteCarloSampling_init ::
  "(int \<Rightarrow> 'g) \<Rightarrow> 'g dist_object \<Rightarrow> int option \<Rightarrow> 'g random_state_arg \<Rightarrow> 'g \<Rightarrow>
   (error + unit) \<times> 'g MonteCarloSampling" where
  "MonteCarloSampling_init RandomState distributions samples_number random_state global =
     (let self = \<lparr>mcs_dist_object = distributions,
                   mcs_list = fst (process_distributions distributions),
                   mcs_array = snd (process_distributions distributions),
                   mcs_random_state = process_random_state RandomState random_state,
                   mcs_samples = None,
                   mcs_x = XNone,
                   mcs_samplesU01 = None,
                   mcs_samples_number = samples_number,
                   np_random = global\<rparr>
      in case samples_number of
           None \<Rightarrow> (Inr (), self)
         | Some n \<Rightarrow>
             run RandomState n
               (case mcs_random_state self of None \<Rightarrow> RsNone | Some g \<Rightarrow> RsState g) self)"

subsection \<open>What the claims about \<open>run\<close> speak of\<close>

text \<open>
  The contract of a sampling method, from the class docstring and the spec: \<open>rvs\<close> exists
  and returns an array of shape \<open>(nsamples, dim)\<close>; \<open>dim\<close> is 1 for a
  \<open>DistributionContinuous1D\<close>.
\<close>

definition rvs_contract :: "'g distribution \<Rightarrow> nat \<Rightarrow> bool" where
  "rvs_contract d width =
     (\<exists>f. rvs d = Some f
        \<and> (\<forall>n g. shape (fst (f n g)) = [n, width] \<and> length (elems (fst (f n g))) = n * width))"

definition dist_ok :: "'g distribution \<Rightarrow> bool" where
  "dist_ok d =
     (if dist_class d = DistributionContinuous1D then rvs_contract d 1
      else (\<exists>width. rvs_contract d width))"

text \<open>
  A sampler as \<open>__init__\<close> leaves it, over distributions that keep the contract; a list of
  distributions is not empty.
\<close>

definition sampler_ok :: "'g MonteCarloSampling \<Rightarrow> bool" where
  "sampler_ok self =
     (mcs_array self = snd (process_distributions (mcs_dist_object self))
      \<and> (case mcs_dist_object self of
            Single d \<Rightarrow> dist_ok d
          | DistList ds \<Rightarrow> ds \<noteq> [] \<and> list_all dist_ok ds))"

text \<open>
  Standalone sampling of one distribution from a generator state, and the generator state
  that a list of distributions leaves behind after each has drawn \<open>n\<close> samples in turn.
\<close>

definition standalone :: "'g distribution \<Rightarrow> nat \<Rightarrow> 'g \<Rightarrow> val ndarray" where
  "standalone d n g = (case rvs d of Some f \<Rightarrow> fst (f n g) | None \<Rightarrow> NdArray [0] [])"

fun generator_after :: "'g distribution list \<Rightarrow> nat \<Rightarrow> 'g \<Rightarrow> 'g" where
  "generator_after [] n g = g"
| "generator_after (d # ds) n g =
     (case rvs d of None \<Rightarrow> g | Some f \<Rightarrow> generator_after ds n (snd (f n g)))"

text \<open>
  The generator a call of \<open>run\<close> draws from: the one given by the \<open>random_state\<close> argument,
  else the sampler's own, else NumPy's global one.
\<close>

definition generator_of ::
  "(int \<Rightarrow> 'g) \<Rightarrow> 'g random_state_arg \<Rightarrow> 'g MonteCarloSampling \<Rightarrow> 'g" where
  "generator_of RandomState random_state self =
     (case (case random_state of
              RsNone \<Rightarrow> mcs_random_state self
            | _ \<Rightarrow> process_random_state RandomState random_state) of
        Some g \<Rightarrow> g
      | None \<Rightarrow> np_random self)"

text \<open>
  A deterministic stand-in for a seeded sampling method, used in the examples: over a
  generator state that is a counter, it returns the next \<open>n\<close> numbers as an \<open>(n, 1)\<close> array
  and advances the counter by \<open>n\<close>. \<open>no_rvs\<close> is a distribution without the method.
\<close>

definition counter_rvs :: "nat \<Rightarrow> nat \<Rightarrow> val ndarray \<times> nat" where
  "counter_rvs n g = (NdArray [n, 1] (map (\<lambda>i. F (real (g + i))) [0..<n]), g + n)"

definition counter_dist :: "nat distribution" where
  "counter_dist = Distribution DistributionContinuous1D (Some counter_rvs)"

definition no_rvs :: "nat distribution" where
  "no_rvs = Distribution DistributionContinuous1D None"

text \<open>Item \<open>j\<close> of an array along its first axis, as an array of one axis less.\<close>

definition item :: "'a ndarray \<Rightarrow> nat \<Rightarrow> 'a ndarray" where
  "item a j =
     NdArray (tl (shape a))
       (take (prod_list (tl (shape a))) (drop (j * prod_list (tl (shape a))) (elems a)))"

section \<open>Facts about the row-major layout\<close>

lemma flat2_lt: "i < n \<Longrightarrow> j < m \<Longrightarrow> i * m + j < n * m" for i j n m :: nat
proof -
  assume a: "i < n" "j < m"
  have "i * m + j < i * m + m" using a(2) by simp
  also have "\<dots> = Suc i * m" by simp
  also have "\<dots> \<le> n * m" using a(1) by (meson Suc_leI mult_le_mono1)
  finally show ?thesis .
qed

lemma flat2_inj:
  fixes i j a b m :: nat
  assumes "j < m" "b < m"
  shows "(i * m + j = a * m + b) = (i = a \<and> j = b)"
proof
  assume eq: "i * m + j = a * m + b"
  have "(i * m + j) div m = i" "(a * m + b) div m = a" using assms by simp_all
  then have "i = a" using eq by simp
  then show "i = a \<and> j = b" using eq by simp
next
  assume "i = a \<and> j = b"
  then show "i * m + j = a * m + b" by simp
qed

lemma length_concat_map_uniform:
  "(\<forall>i<n. length (f i) = m) \<Longrightarrow> length (concat (map f [0..<n])) = n * m"
  by (induction n) simp_all

lemma nth_concat_map_uniform:
  "(\<forall>i<n. length (f i) = m) \<Longrightarrow> i < n \<Longrightarrow> j < m \<Longrightarrow>
   concat (map f [0..<n]) ! (i * m + j) = f i ! j"
proof (induction n)
  case 0
  then show ?case by simp
next
  case (Suc n)
  have len: "length (concat (map f [0..<n])) = n * m"
    using Suc.prems(1) by (simp add: length_concat_map_uniform)
  show ?case
  proof (cases "i < n")
    case True
    then have "i * m + j < n * m" using Suc.prems(3) by (rule flat2_lt)
    then show ?thesis using Suc.IH True Suc.prems by (simp add: nth_append len)
  next
    case False
    then have "i = n" using Suc.prems(2) by simp
    then show ?thesis by (simp add: nth_append len)
  qed
qed

lemma count_list_distinct: "distinct xs \<Longrightarrow> x \<in> set xs \<Longrightarrow> count_list xs x = 1"
  by (induction xs) auto

lemma set2_shape:
  "shape (set2 K i j v) = shape K" "length (elems (set2 K i j v)) = length (elems K)"
  by (simp_all add: set2_def)

lemma at2_set2:
  assumes "shape K = [n, n]" "a < n" "b < n" "i < n" "j < n" "length (elems K) = n * n"
  shows "at2 (set2 K i j v) a b = (if (a, b) = (i, j) then v else at2 K a b)"
proof -
  have inj: "(i * n + j = a * n + b) = (i = a \<and> j = b)"
    using assms(5,3) by (rule flat2_inj)
  have lt: "i * n + j < n * n" using assms(4,5) by (rule flat2_lt)
  show ?thesis
  proof (cases "i = a \<and> j = b")
    case True
    then show ?thesis using lt assms(1,6) by (simp add: at2_def set2_def)
  next
    case False
    then have "i * n + j \<noteq> a * n + b" using inj by blast
    then show ?thesis using False assms(1) by (auto simp: at2_def set2_def)
  qed
qed

lemma np_T_sym:
  assumes s: "shape K = [n, n]" and l: "length (elems K) = n * n"
    and sym: "\<forall>a<n. \<forall>b<n. at2 K a b = at2 K b a"
  shows "np_T K = K"
proof -
  have "map (\<lambda>q. elems K ! ravel [n, n] (rev (unravel (rev [n, n]) q))) [0..<prod_list [n, n]]
        = elems K"
  proof (rule nth_equalityI)
    show "length (map (\<lambda>q. elems K ! ravel [n, n] (rev (unravel (rev [n, n]) q)))
            [0..<prod_list [n, n]]) = length (elems K)"
      using l by simp
  next
    fix q
    assume "q < length (map (\<lambda>q. elems K ! ravel [n, n] (rev (unravel (rev [n, n]) q)))
                      [0..<prod_list [n, n]])"
    then have q: "q < n * n" by simp
    then have n0: "0 < n" by (cases n) auto
    have d: "q div n < n" using q by (simp add: less_mult_imp_div_less)
    have m: "q mod n < n" using n0 by simp
    have "at2 K (q mod n) (q div n) = at2 K (q div n) (q mod n)" using sym d m by blast
    then have "elems K ! (q mod n * n + q div n) = elems K ! (q div n * n + q mod n)"
      by (simp add: at2_def s)
    then show "map (\<lambda>q. elems K ! ravel [n, n] (rev (unravel (rev [n, n]) q)))
                 [0..<prod_list [n, n]] ! q = elems K ! q"
      using q by simp
  qed
  then show ?thesis by (simp add: np_T_def s) (metis ndarray.collapse s)
qed

section \<open>The kernel matrix: proofs\<close>

lemma cwr2_upt_set: "set (combinations_with_replacement2 [m..<n]) = {(i, j). m \<le> i \<and> i \<le> j \<and> j < n}"
proof (induction "n - m" arbitrary: m)
  case 0
  then show ?case by auto
next
  case (Suc k)
  then have mn: "m < n" and k: "k = n - Suc m" by auto
  have "[m..<n] = m # [Suc m..<n]" using mn by (simp add: upt_conv_Cons)
  then have "set (combinations_with_replacement2 [m..<n])
      = Pair m ` set (m # [Suc m..<n]) \<union> set (combinations_with_replacement2 [Suc m..<n])"
    by simp
  also have "\<dots> = Pair m ` {j. m \<le> j \<and> j < n} \<union> {(i, j). Suc m \<le> i \<and> i \<le> j \<and> j < n}"
    using Suc.hyps(1)[OF k] mn by auto
  also have "\<dots> = {(i, j). m \<le> i \<and> i \<le> j \<and> j < n}"
    by (auto simp: Suc_le_eq le_less)
  finally show ?case .
qed

lemma cwr2_upt_distinct: "distinct (combinations_with_replacement2 [m..<n])"
proof (induction "n - m" arbitrary: m)
  case 0
  then show ?case by auto
next
  case (Suc k)
  then have mn: "m < n" and k: "k = n - Suc m" by auto
  have e: "[m..<n] = m # [Suc m..<n]" using mn by (simp add: upt_conv_Cons)
  have d1: "distinct (map (Pair m) (m # [Suc m..<n]))"
    by (simp add: distinct_map inj_on_def) auto
  have d2: "distinct (combinations_with_replacement2 [Suc m..<n])" using Suc.hyps(1)[OF k] .
  have dis: "set (map (Pair m) (m # [Suc m..<n])) \<inter> set (combinations_with_replacement2 [Suc m..<n]) = {}"
    unfolding cwr2_upt_set by auto
  show ?case unfolding e combinations_with_replacement2.simps distinct_append
    using d1 d2 dis by blast
qed

lemma kernel_step_ok:
  assumes ti: "truncate_point p (points ! i) = Inr xi" and tj: "truncate_point p (points ! j) = Inr xj"
  shows "kernel_step ke points p (i, j) (K, calls) =
     Inr (set2 (set2 K i j (ke xi xj)) j i (at2 (set2 K i j (ke xi xj)) i j), calls @ [(i, j)])"
  unfolding kernel_step_def fst_conv snd_conv ti tj sum.case Let_def ..

lemma kernel_loop_inv:
  assumes tp: "\<forall>i<n. truncate_point p (points ! i) = Inr (tp i)"
    and ps: "\<forall>ij\<in>set ps. fst ij \<le> snd ij \<and> snd ij < n"
    and K: "shape K = [n, n]" "length (elems K) = n * n"
  shows "\<exists>K'. kernel_loop ke points p ps (K, calls) = Inr (K', calls @ ps)
           \<and> shape K' = [n, n] \<and> length (elems K') = n * n
           \<and> (\<forall>a<n. \<forall>b<n. at2 K' a b =
                 (if (a, b) \<in> set ps then ke (tp a) (tp b)
                  else if (b, a) \<in> set ps then ke (tp b) (tp a) else at2 K a b))"
  using ps K
proof (induction ps arbitrary: K calls)
  case Nil
  then show ?case by simp
next
  case (Cons ij ps)
  obtain i j where ij: "ij = (i, j)" by (cases ij)
  have ij_ok: "i \<le> j" "j < n" "i < n" using Cons.prems(1) ij by auto
  define K1 where "K1 = set2 K i j (ke (tp i) (tp j))"
  define K2 where "K2 = set2 K1 j i (at2 K1 i j)"
  have K1s: "shape K1 = [n, n]" "length (elems K1) = n * n"
    using Cons.prems(2,3) by (simp_all add: K1_def set2_shape)
  have K2s: "shape K2 = [n, n]" "length (elems K2) = n * n"
    using K1s by (simp_all add: K2_def set2_shape)
  have step: "kernel_step ke points p ij (K, calls) = Inr (K2, calls @ [ij])"
  proof -
    have ti: "truncate_point p (points ! i) = Inr (tp i)" using tp ij_ok(3) by blast
    have tj: "truncate_point p (points ! j) = Inr (tp j)" using tp ij_ok(2) by blast
    show ?thesis unfolding ij K2_def K1_def by (rule kernel_step_ok[OF ti tj])
  qed
  have K1v: "at2 K1 a b = (if (a, b) = (i, j) then ke (tp i) (tp j) else at2 K a b)"
    if "a < n" "b < n" for a b
    unfolding K1_def by (rule at2_set2[OF Cons.prems(2) that ij_ok(3) ij_ok(2) Cons.prems(3)])
  have K2v: "at2 K2 a b =
      (if (a, b) = (i, j) \<or> (a, b) = (j, i) then ke (tp i) (tp j) else at2 K a b)"
    if "a < n" "b < n" for a b
  proof -
    have "at2 K2 a b = (if (a, b) = (j, i) then at2 K1 i j else at2 K1 a b)"
      unfolding K2_def by (rule at2_set2[OF K1s(1) that ij_ok(2) ij_ok(3) K1s(2)])
    also have "\<dots> = (if (a, b) = (i, j) \<or> (a, b) = (j, i) then ke (tp i) (tp j) else at2 K a b)"
    proof (cases "(a, b) = (j, i)")
      case True
      then show ?thesis using K1v[OF ij_ok(3) ij_ok(2)] by (simp only: if_True simp_thms)
    next
      case False
      then show ?thesis using K1v[OF that] by (simp only: if_False simp_thms)
    qed
    finally show ?thesis .
  qed
  have rest: "\<forall>ij\<in>set ps. fst ij \<le> snd ij \<and> snd ij < n" using Cons.prems(1) by simp
  from Cons.IH[OF rest K2s, of "calls @ [ij]"] obtain K' where
    K': "kernel_loop ke points p ps (K2, calls @ [ij]) = Inr (K', (calls @ [ij]) @ ps)"
      "shape K' = [n, n]" "length (elems K') = n * n"
      "\<forall>a<n. \<forall>b<n. at2 K' a b =
                 (if (a, b) \<in> set ps then ke (tp a) (tp b)
                  else if (b, a) \<in> set ps then ke (tp b) (tp a) else at2 K2 a b)"
    by blast
  have run: "kernel_loop ke points p (ij # ps) (K, calls) = Inr (K', calls @ ij # ps)"
    using step K'(1) by simp
  have vals: "\<forall>a<n. \<forall>b<n. at2 K' a b =
                 (if (a, b) \<in> set (ij # ps) then ke (tp a) (tp b)
                  else if (b, a) \<in> set (ij # ps) then ke (tp b) (tp a) else at2 K a b)"
  proof (intro allI impI)
    fix a b assume ab: "a < n" "b < n"
    have old: "at2 K' a b = (if (a, b) \<in> set ps then ke (tp a) (tp b)
                  else if (b, a) \<in> set ps then ke (tp b) (tp a) else at2 K2 a b)"
      using K'(4) ab by blast
    consider (here) "(a, b) = (i, j)" | (mirror) "(a, b) \<noteq> (i, j)" "(b, a) = (i, j)"
      | (other) "(a, b) \<noteq> (i, j)" "(b, a) \<noteq> (i, j)" by blast
    then show "at2 K' a b =
                 (if (a, b) \<in> set (ij # ps) then ke (tp a) (tp b)
                  else if (b, a) \<in> set (ij # ps) then ke (tp b) (tp a) else at2 K a b)"
    proof cases
      case here
      then have ai: "a = i" and bj: "b = j" by blast+
      have in_new: "(a, b) \<in> set (ij # ps)" unfolding ij ai bj by (rule list.set_intros(1))
      have "(b, a) \<in> set ps \<Longrightarrow> (a, b) \<in> set ps"
      proof -
        assume m: "(b, a) \<in> set ps"
        then have "b \<le> a" using rest by force
        moreover have "a \<le> b" unfolding ai bj by (rule ij_ok(1))
        ultimately have "a = b" by (rule order.antisym[rotated])
        then show ?thesis using m by (simp only:)
      qed
      then have "at2 K' a b = (if (a, b) \<in> set ps then ke (tp a) (tp b) else at2 K2 a b)"
        using old by (metis (full_types))
      also have "at2 K2 a b = ke (tp a) (tp b)"
        unfolding K2v[OF ab] unfolding ai bj by (simp only: simp_thms if_True)
      finally show ?thesis using in_new by (simp only: if_True if_cancel)
    next
      case mirror
      then have bi: "b = i" and aj: "a = j" by blast+
      have n1: "((a, b) \<in> set (ij # ps)) = ((a, b) \<in> set ps)"
        using mirror(1) unfolding ij by (simp only: set_simps insert_iff simp_thms)
      have n2: "(b, a) \<in> set (ij # ps)" unfolding ij bi aj by (rule list.set_intros(1))
      have "at2 K2 a b = ke (tp b) (tp a)"
        unfolding K2v[OF ab] unfolding bi aj by (simp only: simp_thms if_True)
      then have "at2 K' a b = (if (a, b) \<in> set ps then ke (tp a) (tp b) else ke (tp b) (tp a))"
        using old by (simp only: if_cancel)
      then show ?thesis unfolding n1 using n2 by (simp only: if_True)
    next
      case other
      have n1: "((a, b) \<in> set (ij # ps)) = ((a, b) \<in> set ps)"
        using other(1) unfolding ij by (simp only: set_simps insert_iff simp_thms)
      have n2: "((b, a) \<in> set (ij # ps)) = ((b, a) \<in> set ps)"
        using other(2) unfolding ij by (simp only: set_simps insert_iff simp_thms)
      have "(a, b) \<noteq> (j, i)" using other(2) by blast
      then have "at2 K2 a b = at2 K a b"
        unfolding K2v[OF ab] using other(1) by (simp only: simp_thms if_False)
      then show ?thesis unfolding n1 n2 using old by (simp only:)
    qed
  qed
  show ?case using run K'(2,3) vals by blast
qed

lemma truncate_point_total:
  assumes "py_not p \<or> list_all (\<lambda>x. 2 \<le> ndim (data x)) points" "i < length points"
  shows "\<exists>y. truncate_point p (points ! i) = Inr y"
proof (cases "py_not p")
  case True
  then show ?thesis by (simp add: truncate_point_def)
next
  case False
  then have "2 \<le> ndim (data (points ! i))" using assms by (simp add: list_all_length)
  then obtain r c rest where "shape (data (points ! i)) = r # c # rest"
    by (cases "shape (data (points ! i))"; cases "tl (shape (data (points ! i)))") (auto simp: ndim_def)
  then show ?thesis
    by (cases p) (simp_all add: truncate_point_def take_columns_def)
qed


text \<open>
  Claim C9. Whenever the points can be handed to \<open>kernel_entry\<close> (no truncation is asked
  for, or every point has a second axis to slice), \<open>calculate_kernel_matrix\<close> returns an
  \<open>n \<times> n\<close> matrix that equals its own transpose; for every pair \<open>i \<le> j\<close> both
  \<open>M[i, j]\<close> and \<open>M[j, i]\<close> hold the entry computed for \<open>(i, j)\<close>, the diagonal included;
  and \<open>kernel_entry\<close> is evaluated exactly once for each pair \<open>i \<le> j\<close> and never for a
  mirrored pair.
\<close>

theorem calculate_kernel_matrix_symmetric:
  assumes "py_not p \<or> list_all (\<lambda>x. 2 \<le> ndim (data x)) points"
  shows "\<exists>kernel calls.
      calculate_kernel_matrix kernel_entry points p = Inr (kernel, calls)
    \<and> shape kernel = [length points, length points]
    \<and> np_T kernel = kernel
    \<and> (\<forall>i j. i \<le> j \<and> j < length points \<longrightarrow>
          (\<exists>xi xj. truncate_point p (points ! i) = Inr xi
                 \<and> truncate_point p (points ! j) = Inr xj
                 \<and> at2 kernel i j = kernel_entry xi xj
                 \<and> at2 kernel j i = kernel_entry xi xj))
    \<and> calls = combinations_with_replacement2 [0..<length points]
    \<and> (\<forall>i j. i \<le> j \<and> j < length points \<longrightarrow> count_list calls (i, j) = 1)
    \<and> (\<forall>i j. \<not> (i \<le> j \<and> j < length points) \<longrightarrow> count_list calls (i, j) = 0)"
proof -
  define n where "n = length points"
  define ps where "ps = combinations_with_replacement2 [0..<n]"
  define tp where "tp = (\<lambda>i. projr (truncate_point p (points ! i)))"
  have tp: "\<forall>i<n. truncate_point p (points ! i) = Inr (tp i)"
  proof (intro allI impI)
    fix i assume "i < n"
    then obtain y where "truncate_point p (points ! i) = Inr y"
      using truncate_point_total[OF assms] unfolding n_def by blast
    then show "truncate_point p (points ! i) = Inr (tp i)" by (simp add: tp_def)
  qed
  have pset: "set ps = {(i, j). i \<le> j \<and> j < n}"
    unfolding ps_def cwr2_upt_set by simp
  have pd: "distinct ps" unfolding ps_def by (rule cwr2_upt_distinct)
  have pok: "\<forall>ij\<in>set ps. fst ij \<le> snd ij \<and> snd ij < n" unfolding pset by auto
  have z: "shape (np_zeros [n, n]) = [n, n]" "length (elems (np_zeros [n, n])) = n * n"
    by (simp_all add: np_zeros_def)
  from kernel_loop_inv[OF tp pok z, of kernel_entry "[]"] obtain K where
    K: "kernel_loop kernel_entry points p ps (np_zeros [n, n], []) = Inr (K, [] @ ps)"
       "shape K = [n, n]" "length (elems K) = n * n"
       "\<forall>a<n. \<forall>b<n. at2 K a b =
                 (if (a, b) \<in> set ps then kernel_entry (tp a) (tp b)
                  else if (b, a) \<in> set ps then kernel_entry (tp b) (tp a)
                  else at2 (np_zeros [n, n]) a b)"
    by blast
  have res: "calculate_kernel_matrix kernel_entry points p = Inr (K, ps)"
    using K(1) by (simp add: calculate_kernel_matrix_def Let_def n_def ps_def)
  have up: "at2 K i j = kernel_entry (tp i) (tp j)" if "i \<le> j" "j < n" for i j
  proof -
    have "(i, j) \<in> set ps" using that pset by blast
    moreover have "i < n" using that by simp
    ultimately show ?thesis using K(4) that(2) by simp
  qed
  have lo: "at2 K j i = kernel_entry (tp i) (tp j)" if "i \<le> j" "j < n" for i j
  proof (cases "i = j")
    case True
    then show ?thesis using up[OF that] by simp
  next
    case False
    then have "(j, i) \<notin> set ps" "(i, j) \<in> set ps" using that pset by auto
    moreover have "i < n" using that by simp
    ultimately show ?thesis using K(4) that(2) by simp
  qed
  have sym: "\<forall>a<n. \<forall>b<n. at2 K a b = at2 K b a"
  proof (intro allI impI)
    fix a b assume "a < n" "b < n"
    then show "at2 K a b = at2 K b a"
      using up[of a b] lo[of a b] up[of b a] lo[of b a] by (cases "a \<le> b") simp_all
  qed
  have T: "np_T K = K" by (rule np_T_sym[OF K(2,3) sym])
  have entries: "\<forall>i j. i \<le> j \<and> j < n \<longrightarrow>
          (\<exists>xi xj. truncate_point p (points ! i) = Inr xi
                 \<and> truncate_point p (points ! j) = Inr xj
                 \<and> at2 K i j = kernel_entry xi xj
                 \<and> at2 K j i = kernel_entry xi xj)"
  proof (intro allI impI)
    fix i j assume a: "i \<le> j \<and> j < n"
    then have "i < n" "j < n" by auto
    then have "truncate_point p (points ! i) = Inr (tp i)" "truncate_point p (points ! j) = Inr (tp j)"
      using tp by blast+
    then show "\<exists>xi xj. truncate_point p (points ! i) = Inr xi
                 \<and> truncate_point p (points ! j) = Inr xj
                 \<and> at2 K i j = kernel_entry xi xj
                 \<and> at2 K j i = kernel_entry xi xj"
      using up lo a by blast
  qed
  have c1: "\<forall>i j. i \<le> j \<and> j < n \<longrightarrow> count_list ps (i, j) = 1"
    using count_list_distinct[OF pd] pset by blast
  have c0: "\<forall>i j. \<not> (i \<le> j \<and> j < n) \<longrightarrow> count_list ps (i, j) = 0"
    using pset by (simp add: count_list_0_iff)
  show ?thesis
    using res K(2) T entries c1 c0 unfolding n_def[symmetric] ps_def[symmetric] by blast
qed

theorem calculate_kernel_matrix_symmetric_witness:
  "(py_not (Some 1)
      \<or> list_all (\<lambda>x. 2 \<le> ndim (data x))
           [GrassmannPoint (NdArray [2, 2] [1, 0, 0, 1]), GrassmannPoint (NdArray [2, 2] [0, 1, 1, 0])])
   \<and> (\<exists>kernel calls.
        calculate_kernel_matrix (\<lambda>x y. sum_list (elems (data x)) + 2 * sum_list (elems (data y)))
          [GrassmannPoint (NdArray [2, 2] [1, 0, 0, 1]), GrassmannPoint (NdArray [2, 2] [0, 1, 1, 0])]
          (Some 1) = Inr (kernel, calls)
      \<and> shape kernel = [2, 2]
      \<and> np_T kernel = kernel
      \<and> at2 kernel 0 1 = 3
      \<and> at2 kernel 1 0 = 3
      \<and> calls = [(0, 0), (0, 1), (1, 1)])"
proof -
  let ?pts = "[GrassmannPoint (NdArray [2, 2] [1, 0, 0, 1]), GrassmannPoint (NdArray [2, 2] [0, 1, 1, 0])]"
  let ?ke = "\<lambda>x y. sum_list (elems (data x)) + 2 * sum_list (elems (data y))"
  have h: "py_not (Some 1) \<or> list_all (\<lambda>x. 2 \<le> ndim (data x)) ?pts"
    by (simp add: ndim_def)
  have t0: "truncate_point (Some 1) (?pts ! 0) = Inr (GrassmannPoint (NdArray [2, 1] [1, 0]))"
    by (simp add: truncate_point_def py_not_def take_columns_def slice_stop_def upt_rec)
  have t1: "truncate_point (Some 1) (?pts ! 1) = Inr (GrassmannPoint (NdArray [2, 1] [0, 1]))"
    by (simp add: truncate_point_def py_not_def take_columns_def slice_stop_def upt_rec)
  have c: "combinations_with_replacement2 [0..<length ?pts] = [(0, 0), (0, 1), (1, 1)]"
    by (simp add: upt_rec)
  from calculate_kernel_matrix_symmetric[OF h, of ?ke] obtain kernel calls where
    r: "calculate_kernel_matrix ?ke ?pts (Some 1) = Inr (kernel, calls)"
       "shape kernel = [length ?pts, length ?pts]"
       "np_T kernel = kernel"
       "\<forall>i j. i \<le> j \<and> j < length ?pts \<longrightarrow>
          (\<exists>xi xj. truncate_point (Some 1) (?pts ! i) = Inr xi
                 \<and> truncate_point (Some 1) (?pts ! j) = Inr xj
                 \<and> at2 kernel i j = ?ke xi xj
                 \<and> at2 kernel j i = ?ke xi xj)"
       "calls = combinations_with_replacement2 [0..<length ?pts]"
    by blast
  have "(0::nat) \<le> 1 \<and> (1::nat) < length ?pts" by simp
  with r(4) obtain xi xj where
    e: "truncate_point (Some 1) (?pts ! 0) = Inr xi" "truncate_point (Some 1) (?pts ! 1) = Inr xj"
       "at2 kernel 0 1 = ?ke xi xj" "at2 kernel 1 0 = ?ke xi xj"
    by blast
  have "xi = GrassmannPoint (NdArray [2, 1] [1, 0])" "xj = GrassmannPoint (NdArray [2, 1] [0, 1])"
    using e(1,2) t0 t1 by simp_all
  then have v: "at2 kernel 0 1 = 3" "at2 kernel 1 0 = 3" using e(3,4) by simp_all
  show ?thesis using h r(1,2,3,5) v c by simp
qed





section \<open>The bootstrap: proofs\<close>

lemma flat3_lt:
  fixes i j k a b c :: nat
  assumes "i < a" "j < b" "k < c"
  shows "(i * b + j) * c + k < a * b * c"
  using flat2_lt[OF flat2_lt[OF assms(1,2)] assms(3)] .

lemma flat2_div_mod:
  fixes i j m :: nat
  assumes "j < m"
  shows "(i * m + j) div m = i" "(i * m + j) mod m = j"
  using assms by simp_all

lemma unravel3:
  assumes "j < b" "k < c"
  shows "unravel [a, b, c] ((i * b + j) * c + k) = [i, j, k]"
proof -
  have c0: "0 < c" using assms(2) by simp
  have e: "(i * b + j) * c + k = i * (b * c) + (j * c + k)" by (simp add: algebra_simps)
  have lt: "j * c + k < b * c" using assms by (rule flat2_lt)
  have d1: "((i * b + j) * c + k) div (b * c) = i" unfolding e by (rule flat2_div_mod(1)[OF lt])
  have m1: "((i * b + j) * c + k) mod (b * c) = j * c + k" unfolding e by (rule flat2_div_mod(2)[OF lt])
  have d2: "(j * c + k) div c = j" using assms(2) by simp
  have m2: "(j * c + k) mod c = k" using assms(2) by simp
  have "unravel [a, b, c] q = [q div (b * c), q mod (b * c) div c, q mod (b * c) mod c]" for q
    by simp
  then show ?thesis by (simp only: d1 m1 d2 m2)
qed

lemma at3_assign_column3:
  assumes s: "shape a = [A, B, C]" and l: "length (elems a) = A * B * C"
    and ix: "i < A" "j < B" "k < C"
  shows "at3 (assign_column3 a i' k' v) i j k = (if i = i' \<and> k = k' then v ! j else at3 a i j k)"
proof -
  have lt: "(i * B + j) * C + k < length (elems a)" unfolding l using ix by (rule flat3_lt)
  have u: "unravel [A, B, C] ((i * B + j) * C + k) = [i, j, k]" using ix(2,3) by (rule unravel3)
  define f where "f = (\<lambda>pos. if unravel (shape a) pos ! 0 = i' \<and> unravel (shape a) pos ! 2 = k'
                    then v ! (unravel (shape a) pos ! 1) else elems a ! pos)"
  have "at3 (assign_column3 a i' k' v) i j k = map f [0..<length (elems a)] ! ((i * B + j) * C + k)"
    by (simp add: at3_def assign_column3_def s f_def)
  also have "\<dots> = f ((i * B + j) * C + k)" using lt by simp
  also have "\<dots> = (if i = i' \<and> k = k' then v ! j else at3 a i j k)"
    unfolding f_def s u by (simp add: at3_def s)
  finally show ?thesis .
qed

lemma assign_column3_shape:
  "shape (assign_column3 a i k v) = shape a"
  "length (elems (assign_column3 a i k v)) = length (elems a)"
  by (simp_all add: assign_column3_def)

lemma ci_step_shape:
  "shape (confidence_interval_step delta qoi_mean B Q ci oj) = shape ci"
  "length (elems (confidence_interval_step delta qoi_mean B Q ci oj)) = length (elems ci)"
  by (simp_all add: confidence_interval_step_def Let_def assign_column3_shape)

lemma ci_step_value:
  assumes s: "shape ci = [A, Q, 2]" and l: "length (elems ci) = A * Q * 2"
    and qm: "shape qoi_mean ! 0 = Q"
    and ix: "o' < A" "q < Q" "k < 2"
  shows "at3 (confidence_interval_step delta qoi_mean B Q ci oj) o' q k =
           (if o' = oj then ci_value delta qoi_mean B oj q k else at3 ci o' q k)"
proof -
  define std_qoi where "std_qoi = map (\<lambda>q. np_std_ddof1 (row3 B oj q)) [0..<Q]"
  define lower where "lower = map2 (\<lambda>m s. fl_sub m (fl_mul delta s)) (column2 qoi_mean oj) std_qoi"
  define upper where "upper = map2 (\<lambda>m s. fl_add m (fl_mul delta s)) (column2 qoi_mean oj) std_qoi"
  define ci1 where "ci1 = assign_column3 ci oj 0 lower"
  have step: "confidence_interval_step delta qoi_mean B Q ci oj = assign_column3 ci1 oj 1 upper"
    by (simp add: confidence_interval_step_def Let_def std_qoi_def lower_def upper_def ci1_def)
  have s1: "shape ci1 = [A, Q, 2]" "length (elems ci1) = A * Q * 2"
    using s l by (simp_all add: ci1_def assign_column3_shape)
  have lens: "length (column2 qoi_mean oj) = Q" "length std_qoi = Q"
    using qm by (simp_all add: column2_def std_qoi_def)
  have lo: "lower ! q = ci_value delta qoi_mean B oj q 0"
    using ix(2) lens by (simp add: lower_def ci_value_def column2_def std_qoi_def qm)
  have up: "upper ! q = ci_value delta qoi_mean B oj q 1"
    using ix(2) lens by (simp add: upper_def ci_value_def column2_def std_qoi_def qm)
  have k01: "k = 0 \<or> k = 1" using ix(3) by auto
  have "at3 (assign_column3 ci1 oj 1 upper) o' q k =
          (if o' = oj \<and> k = 1 then upper ! q else at3 ci1 o' q k)"
    by (rule at3_assign_column3[OF s1 ix])
  also have "at3 ci1 o' q k = (if o' = oj \<and> k = 0 then lower ! q else at3 ci o' q k)"
    unfolding ci1_def by (rule at3_assign_column3[OF s l ix])
  finally show ?thesis
    unfolding step lo up using k01 by (auto simp: ci_value_def)
qed

lemma ci_fold:
  assumes s: "shape ci = [A, Q, 2]" and l: "length (elems ci) = A * Q * 2"
    and qm: "shape qoi_mean ! 0 = Q"
  shows "shape (foldl (confidence_interval_step delta qoi_mean B Q) ci [0..<m]) = [A, Q, 2]
       \<and> length (elems (foldl (confidence_interval_step delta qoi_mean B Q) ci [0..<m])) = A * Q * 2
       \<and> (\<forall>o'<A. \<forall>q<Q. \<forall>k<2.
             at3 (foldl (confidence_interval_step delta qoi_mean B Q) ci [0..<m]) o' q k =
               (if o' < m then ci_value delta qoi_mean B o' q k else at3 ci o' q k))"
proof (induction m)
  case 0
  then show ?case using s l by simp
next
  case (Suc m)
  let ?c = "foldl (confidence_interval_step delta qoi_mean B Q) ci [0..<m]"
  have f: "foldl (confidence_interval_step delta qoi_mean B Q) ci [0..<Suc m]
         = confidence_interval_step delta qoi_mean B Q ?c m"
    by simp
  have cs: "shape ?c = [A, Q, 2]" "length (elems ?c) = A * Q * 2" using Suc.IH by blast+
  have v: "\<forall>o'<A. \<forall>q<Q. \<forall>k<2.
             at3 (confidence_interval_step delta qoi_mean B Q ?c m) o' q k =
               (if o' < Suc m then ci_value delta qoi_mean B o' q k else at3 ci o' q k)"
  proof (intro allI impI)
    fix o' q k assume ix: "o' < A" "q < Q" "k < (2::nat)"
    have old: "at3 ?c o' q k = (if o' < m then ci_value delta qoi_mean B o' q k else at3 ci o' q k)"
      using Suc.IH ix by blast
    show "at3 (confidence_interval_step delta qoi_mean B Q ?c m) o' q k =
               (if o' < Suc m then ci_value delta qoi_mean B o' q k else at3 ci o' q k)"
      unfolding ci_step_value[OF cs qm ix] old by (auto simp: less_Suc_eq)
  qed
  show ?case unfolding f using cs v by (simp only: ci_step_shape simp_thms)
qed

lemma fl_add_zero: "fl_add m (Fin 0) = m"
  by (cases m) simp_all

lemma row3_eq:
  assumes s: "shape a = [A, Q, N]" and l: "length (elems a) = A * Q * N" and ix: "i < A" "j < Q"
  shows "row3 a i j = map (\<lambda>b. at3 a i j b) [0..<N]"
proof (rule nth_equalityI)
  have "Suc (i * Q + j) * N \<le> (A * Q) * N"
    using flat2_lt[OF ix] by (meson Suc_leI mult_le_mono1)
  then have le: "(i * Q + j) * N + N \<le> length (elems a)" using l by simp
  then show len: "length (row3 a i j) = length (map (\<lambda>b. at3 a i j b) [0..<N])"
    by (simp add: row3_def s)
  fix b assume "b < length (row3 a i j)"
  then have b: "b < N" using len by simp
  then show "row3 a i j ! b = map (\<lambda>b. at3 a i j b) [0..<N] ! b"
    using le by (simp add: row3_def s at3_def)
qed

lemma std11: "np_std_ddof1 [Fin 1, Fin 1] = Fin 0"
  by (simp add: np_std_ddof1_def fl_sum_def fl_sub_def Let_def)

text \<open>
  Claim C1, as amended. For bootstrapped results of shape \<open>(n_outputs, n_qois, N)\<close> and a
  \<open>qoi_mean\<close> of shape \<open>(n_qois, n_outputs)\<close>, the returned array has shape
  \<open>(n_outputs, n_qois, 2)\<close>, or \<open>(n_qois, 2)\<close> when there is one output channel, and for
  every output channel and quantity it holds \<open>qoi_mean - delta * std\<close> and
  \<open>qoi_mean + delta * std\<close>, where \<open>std\<close> is the square root of the sum of squared deviations
  from the mean over the \<open>N\<close> bootstrap values divided by \<open>N - 1\<close>, and
  \<open>delta = - ppf((1 - confidence_level) / 2)\<close>. When \<open>std\<close> is zero and \<open>delta\<close> is finite, both
  bounds equal \<open>qoi_mean\<close>.
\<close>

theorem confidence_interval_bounds:
  assumes qm: "shape qoi_mean = [n_qois, n_outputs]"
    and bs: "shape bootstrapped_qoi = [n_outputs, n_qois, N]"
    and bl: "length (elems bootstrapped_qoi) = n_outputs * n_qois * N"
    and ix: "output_j < n_outputs" "q < n_qois"
  shows
    "let delta = fl_neg (norm_ppf ndtri (fl_div (fl_sub (Fin 1) confidence_level) (Fin 2)));
         xs = map (\<lambda>b. at3 bootstrapped_qoi output_j q b) [0..<N];
         arrmean = fl_div (fl_sum xs) (Fin (real N));
         std = fl_sqrt (fl_div (fl_sum (map (\<lambda>v. fl_mul (fl_sub v arrmean) (fl_sub v arrmean)) xs))
                          (Fin (real (N - 1))));
         R = confidence_interval ndtri qoi_mean confidence_level bootstrapped_qoi;
         lower = (if n_outputs = 1 then at2 R q 0 else at3 R output_j q 0);
         upper = (if n_outputs = 1 then at2 R q 1 else at3 R output_j q 1)
     in shape R = (if n_outputs = 1 then [n_qois, 2] else [n_outputs, n_qois, 2])
      \<and> lower = fl_sub (at2 qoi_mean q output_j) (fl_mul delta std)
      \<and> upper = fl_add (at2 qoi_mean q output_j) (fl_mul delta std)
      \<and> (std = Fin 0 \<and> (\<exists>d. delta = Fin d) \<longrightarrow>
           lower = at2 qoi_mean q output_j \<and> upper = at2 qoi_mean q output_j)"
proof -
  define delta where "delta = fl_neg (norm_ppf ndtri (fl_div (fl_sub (Fin 1) confidence_level) (Fin 2)))"
  define xs where "xs = map (\<lambda>b. at3 bootstrapped_qoi output_j q b) [0..<N]"
  define arrmean where "arrmean = fl_div (fl_sum xs) (Fin (real N))"
  define std where "std = fl_sqrt (fl_div (fl_sum (map (\<lambda>v. fl_mul (fl_sub v arrmean) (fl_sub v arrmean)) xs))
                          (Fin (real (N - 1))))"
  define ci0 where "ci0 = NdArray [n_outputs, n_qois, 2] (replicate (n_outputs * n_qois * 2) (Fin 0))"
  define ci where "ci = foldl (confidence_interval_step delta qoi_mean bootstrapped_qoi n_qois) ci0 [0..<n_outputs]"
  define R where "R = confidence_interval ndtri qoi_mean confidence_level bootstrapped_qoi"
  define lower where "lower = (if n_outputs = 1 then at2 R q 0 else at3 R output_j q 0)"
  define upper where "upper = (if n_outputs = 1 then at2 R q 1 else at3 R output_j q 1)"
  have R: "R = (if n_outputs = 1 then NdArray [n_qois, 2] (take (n_qois * 2) (elems ci)) else ci)"
    by (simp add: R_def confidence_interval_def Let_def qm ci_def ci0_def delta_def)
  have c0: "shape ci0 = [n_outputs, n_qois, 2]" "length (elems ci0) = n_outputs * n_qois * 2"
    by (simp_all add: ci0_def)
  have qm0: "shape qoi_mean ! 0 = n_qois" by (simp add: qm)
  note fold = ci_fold[OF c0 qm0, of delta bootstrapped_qoi n_outputs, folded ci_def]
  have cs: "shape ci = [n_outputs, n_qois, 2]" "length (elems ci) = n_outputs * n_qois * 2"
    using fold by blast+
  have cv: "at3 ci output_j q k = ci_value delta qoi_mean bootstrapped_qoi output_j q k" if "k < 2" for k
    using fold ix that by simp
  have xs: "row3 bootstrapped_qoi output_j q = xs"
    unfolding xs_def by (rule row3_eq[OF bs bl ix])
  have std: "np_std_ddof1 (row3 bootstrapped_qoi output_j q) = std"
    unfolding xs by (simp add: np_std_ddof1_def Let_def std_def arrmean_def xs_def o_def)
  have Rv: "(if n_outputs = 1 then at2 R q k else at3 R output_j q k) = at3 ci output_j q k"
    if k: "k < 2" for k
  proof (cases "n_outputs = 1")
    case True
    then have o0: "output_j = 0" using ix(1) by simp
    have "q * 2 + k < n_qois * 2" using ix(2) k by (rule flat2_lt)
    then show ?thesis using True cs by (simp add: R at2_def at3_def o0)
  next
    case False
    then show ?thesis by (simp add: R)
  qed
  have lo: "lower = fl_sub (at2 qoi_mean q output_j) (fl_mul delta std)"
    unfolding lower_def using Rv[of 0] cv[of 0] by (simp add: ci_value_def std)
  have up: "upper = fl_add (at2 qoi_mean q output_j) (fl_mul delta std)"
    unfolding upper_def using Rv[of 1] cv[of 1] by (simp add: ci_value_def std)
  have sh: "shape R = (if n_outputs = 1 then [n_qois, 2] else [n_outputs, n_qois, 2])"
    using cs by (simp add: R)
  have zero: "std = Fin 0 \<and> (\<exists>d. delta = Fin d) \<longrightarrow>
           lower = at2 qoi_mean q output_j \<and> upper = at2 qoi_mean q output_j"
    unfolding lo up by (auto simp: fl_sub_def fl_add_zero)
  show ?thesis
    unfolding Let_def
    using sh lo up zero
    unfolding lower_def upper_def R_def std_def arrmean_def xs_def delta_def
    by blast
qed

theorem confidence_interval_bounds_witness:
  "shape (NdArray [1, 2] [Fin 5, Fin 7]) = [1, 2]
   \<and> shape (NdArray [2, 1, 2] [Fin 3, Fin 3, Fin 1, Fin 1]) = [2, 1, 2]
   \<and> length (elems (NdArray [2, 1, 2] [Fin 3, Fin 3, Fin 1, Fin 1])) = 2 * 1 * 2
   \<and> (1::nat) < 2 \<and> (0::nat) < 1
   \<and> at3 (confidence_interval id (NdArray [1, 2] [Fin 5, Fin 7]) (Fin 0)
            (NdArray [2, 1, 2] [Fin 3, Fin 3, Fin 1, Fin 1])) 1 0 0 = Fin 7
   \<and> at3 (confidence_interval id (NdArray [1, 2] [Fin 5, Fin 7]) (Fin 0)
            (NdArray [2, 1, 2] [Fin 3, Fin 3, Fin 1, Fin 1])) 1 0 1 = Fin 7"
proof -
  let ?qm = "NdArray [1, 2] [Fin 5, Fin 7]"
  let ?B = "NdArray [2, 1, 2] [Fin 3, Fin 3, Fin 1, Fin 1]"
  have h: "shape ?qm = [1, 2]" "shape ?B = [2, 1, 2]" "length (elems ?B) = 2 * 1 * 2"
    "(1::nat) < 2" "(0::nat) < 1"
    by simp_all
  have xs: "map (\<lambda>b. at3 ?B 1 0 b) [0..<2] = [Fin 1, Fin 1]"
    by (simp add: at3_def upt_rec)
  have std: "fl_sqrt (fl_div (fl_sum (map (\<lambda>v. fl_mul (fl_sub v (fl_div (fl_sum [Fin 1, Fin 1]) (Fin (real (2::nat)))))
                 (fl_sub v (fl_div (fl_sum [Fin 1, Fin 1]) (Fin (real (2::nat)))))) [Fin 1, Fin 1]))
             (Fin (real ((2::nat) - 1)))) = Fin 0"
    by (simp add: fl_sum_def fl_sub_def)
  have qv: "at2 ?qm 0 1 = Fin 7" by (simp add: at2_def)
  note t = confidence_interval_bounds[OF h, of id "Fin 0", unfolded Let_def xs std qv]
  have "at3 (confidence_interval id ?qm (Fin 0) ?B) 1 0 0 = Fin 7
      \<and> at3 (confidence_interval id ?qm (Fin 0) ?B) 1 0 1 = Fin 7"
    using t by (simp add: norm_ppf_def fl_sub_def)
  then show ?thesis using h by simp
qed

text \<open>
  The claim as stated fails at \<open>confidence_level = 1.0\<close>: \<open>ppf(0)\<close> is minus infinity (whatever
  function inverts the distribution inside \<open>(0, 1)\<close>), so \<open>delta\<close> is infinite, and with a zero
  standard deviation \<open>delta * std\<close> is NaN; both bounds are NaN although \<open>qoi_mean\<close> is 5.
\<close>

theorem confidence_interval_zero_std_counterexample:
  "np_std_ddof1 (row3 (NdArray [1, 1, 2] [Fin 3, Fin 3]) 0 0) = Fin 0
   \<and> at2 (confidence_interval id (NdArray [1, 1] [Fin 5]) (Fin 1) (NdArray [1, 1, 2] [Fin 3, Fin 3])) 0 0 = NaN
   \<and> at2 (confidence_interval id (NdArray [1, 1] [Fin 5]) (Fin 1) (NdArray [1, 1, 2] [Fin 3, Fin 3])) 0 1 = NaN
   \<and> at2 (NdArray [1, 1] [Fin 5]) 0 0 = Fin 5"
proof -
  have s: "np_std_ddof1 (row3 (NdArray [1, 1, 2] [Fin 3, Fin 3]) 0 0) = Fin 0"
    by (simp add: np_std_ddof1_def row3_def fl_sum_def fl_sub_def Let_def)
  have d: "fl_neg (norm_ppf id (fl_div (fl_sub (Fin 1) (Fin 1)) (Fin 2))) = PInf"
    by (simp add: norm_ppf_def fl_sub_def)
  have s': "np_std_ddof1 (row3 (NdArray [Suc 0, Suc 0, 2] [Fin 3, Fin 3]) 0 0) = Fin 0"
    using s by simp
  have u: "unravel [Suc 0, Suc 0, 2] 0 = [0, 0, 0]" "unravel [Suc 0, Suc 0, 2] (Suc 0) = [0, 0, 1]"
    by simp_all
  have c: "confidence_interval id (NdArray [1, 1] [Fin 5]) (Fin 1) (NdArray [1, 1, 2] [Fin 3, Fin 3])
           = NdArray [1, 2] [NaN, NaN]"
    unfolding confidence_interval_def Let_def d
    by (simp add: confidence_interval_step_def Let_def s' column2_def at2_def assign_column3_def
        fl_sub_def upt_rec u del: unravel.simps)
  show ?thesis unfolding c s by (simp add: at2_def)
qed

text \<open>
  Claim C2 (the code departs from it). An array of rank four in \<open>estimator_inputs\<close> raises
  nothing: the loop of lines 253--279 appends no generator for it and goes on, and
  \<open>bootstrapping\<close> then calls the estimator without that argument. With an estimator that
  accepts any arguments the call returns an interval; with one that expects one argument
  the estimator's own TypeError surfaces, after the loop. Only an element that is neither
  an array nor \<open>None\<close> raises the ValueError that names its position.
\<close>

theorem bootstrapping_skips_rank4_input:
  "create_generators 0 [ArrayInput (NdArray [1, 1, 1, 1] [0::real])] [] = Inr []
   \<and> bootstrapping (\<lambda>h size s. (NdArray size [], s)) id (\<lambda>args. Inr (NdArray [1, 1] [Fin 1]))
         [ArrayInput (NdArray [1, 1, 1, 1] [0::real])] (NdArray [1, 1] [Fin 1]) 2 (Fin 0) ()
       = (Inr (NdArray [1, 2] [Fin 1, Fin 1]), ())
   \<and> bootstrapping (\<lambda>h size s. (NdArray size [], s)) id
         (\<lambda>args. if length args = 1 then Inr (NdArray [1, 1] [Fin 1]) else Inl TypeError)
         [ArrayInput (NdArray [1, 1, 1, 1] [0::real])] (NdArray [1, 1] [Fin 1]) 2 (Fin 0) ()
       = (Inl TypeError, ())
   \<and> create_generators 0 [OtherInput :: real estimator_input] [] = Inl (ValueErrorAt 0)"
proof -
  have g: "create_generators 0 [ArrayInput (NdArray [1, 1, 1, 1] [0::real])] [] = Inr []"
    by (simp add: ndim_def)
  have loop: "bootstrap_loop (\<lambda>h size s. (NdArray size [], s)) (\<lambda>args. Inr (NdArray [1, 1] [Fin 1]))
         ([] :: real generator option list) (nat 2) 0
         (NdArray [1, 1, nat 2] (replicate (1 * 1 * nat 2) (Fin 0))) ()
       = (Inr (NdArray [1, 1, 2] [Fin 1, Fin 1]), ())"
    by code_simp
  have two: "nat 2 = Suc (Suc 0)" by simp
  have u: "unravel [Suc 0, Suc 0, 2] 0 = [0, 0, 0]" "unravel [Suc 0, Suc 0, 2] (Suc 0) = [0, 0, 1]"
    by simp_all
  have r3: "row3 (NdArray [a, b, 2] [Fin 1, Fin 1]) 0 0 = [Fin 1, Fin 1]" for a b
    by (simp add: row3_def)
  have ci: "confidence_interval id (NdArray [1, 1] [Fin 1]) (Fin 0) (NdArray [1, 1, 2] [Fin 1, Fin 1])
          = NdArray [1, 2] [Fin 1, Fin 1]"
    unfolding confidence_interval_def Let_def
    by (simp add: confidence_interval_step_def Let_def r3 std11 column2_def at2_def assign_column3_def
        fl_sub_def norm_ppf_def upt_rec u del: unravel.simps)
  have b1: "bootstrapping (\<lambda>h size s. (NdArray size [], s)) id (\<lambda>args. Inr (NdArray [1, 1] [Fin 1]))
         [ArrayInput (NdArray [1, 1, 1, 1] [0::real])] (NdArray [1, 1] [Fin 1]) 2 (Fin 0) ()
       = (Inr (NdArray [1, 2] [Fin 1, Fin 1]), ())"
    unfolding bootstrapping_def g using loop ci by simp
  have b2: "bootstrapping (\<lambda>h size s. (NdArray size [], s)) id
         (\<lambda>args. if length args = 1 then Inr (NdArray [1, 1] [Fin 1]) else Inl TypeError)
         [ArrayInput (NdArray [1, 1, 1, 1] [0::real])] (NdArray [1, 1] [Fin 1]) 2 (Fin 0) ()
       = (Inl TypeError, ())"
    unfolding bootstrapping_def g two by simp
  show ?thesis using g b1 b2 by simp
qed

text \<open>
  Claim C3. For a three-dimensional array of shape \<open>(d, n, m)\<close>, one advance of the 3-D
  generator makes one draw of an \<open>(n, m)\<close> index array with entries below \<open>n\<close> and yields an
  array of shape \<open>(d, n, m)\<close> whose entry \<open>(k, r, c)\<close> is \<open>samples[k, indices[r, c], c]\<close>, the
  same index array for every slice \<open>k\<close>.
\<close>

theorem bootstrap_sample_generator_3D_next_spec:
  assumes s: "shape samples = [d, n, m]"
    and draw: "randint n [n, m] st = (indices, st')"
    and ish: "shape indices = [n, m]" "length (elems indices) = n * m"
    and irange: "list_all (\<lambda>i. i < n) (elems indices)"
  shows "\<exists>y. bootstrap_sample_generator_3D_next randint samples st = (Inr y, st')
           \<and> shape y = [d, n, m]
           \<and> length (elems y) = d * n * m
           \<and> (\<forall>k<d. \<forall>r<n. \<forall>c<m. at3 y k r c = at3 samples k (at2 indices r c) c)"
proof -
  define g where "g = (\<lambda>k x y. elems samples ! ((k * n + elems indices ! (x * m + y)) * m + [0..<m] ! y))"
  define y where "y = NdArray [d, n, m]
     (concat (map (\<lambda>k. concat (map (\<lambda>x. map (\<lambda>y. g k x y) [0..<m]) [0..<n])) [0..<d]))"
  have cols: "list_all (\<lambda>j. j < m) [0..<m]" by (simp add: list_all_iff)
  have res: "bootstrap_sample_generator_3D_next randint samples st = (Inr y, st')"
    using irange cols
    by (simp add: bootstrap_sample_generator_3D_next_def s draw adv_index3_def ish np_arange_def
        y_def g_def Let_def)
  have inner: "\<forall>x<n. length (map (\<lambda>y. g k x y) [0..<m]) = m" for k by simp
  have mid: "\<forall>k<d. length (concat (map (\<lambda>x. map (\<lambda>y. g k x y) [0..<m]) [0..<n])) = n * m"
    using length_concat_map_uniform[OF inner] by simp
  have len: "length (elems y) = d * n * m"
    using length_concat_map_uniform[OF mid] by (simp add: y_def)
  have vals: "\<forall>k<d. \<forall>r<n. \<forall>c<m. at3 y k r c = at3 samples k (at2 indices r c) c"
  proof (intro allI impI)
    fix k r c assume kd: "k < d" and rn: "r < n" and cm: "c < m"
    have rc: "r * m + c < n * m" using rn cm by (rule flat2_lt)
    have e: "(k * n + r) * m + c = k * (n * m) + (r * m + c)" by (simp add: algebra_simps)
    have "at3 y k r c = concat (map (\<lambda>x. map (\<lambda>y. g k x y) [0..<m]) [0..<n]) ! (r * m + c)"
      using nth_concat_map_uniform[OF mid kd rc] by (simp add: at3_def y_def e)
    also have "\<dots> = map (\<lambda>y. g k r y) [0..<m] ! c"
      by (rule nth_concat_map_uniform[OF inner rn cm])
    also have "\<dots> = g k r c" using cm by simp
    also have "\<dots> = at3 samples k (at2 indices r c) c"
      using cm by (simp add: g_def at3_def at2_def s ish)
    finally show "at3 y k r c = at3 samples k (at2 indices r c) c" .
  qed
  show ?thesis using res len vals by (intro exI[of _ y]) (simp add: y_def)
qed

theorem bootstrap_sample_generator_3D_next_witness:
  "shape (NdArray [2, 2, 2] [1, 2, 3, 4, 5, 6, 7, 8 :: real]) = [2, 2, 2]
   \<and> (\<lambda>h size s. (NdArray size (map (\<lambda>i. (s + i) mod h) [0..<prod_list size]), s + prod_list size))
        2 [2, 2] (1::nat) = (NdArray [2, 2] [1, 0, 1, 0], 5)
   \<and> shape (NdArray [2, 2] [1, 0, 1, 0 :: nat]) = [2, 2]
   \<and> length (elems (NdArray [2, 2] [1, 0, 1, 0 :: nat])) = 2 * 2
   \<and> list_all (\<lambda>i. i < 2) (elems (NdArray [2, 2] [1, 0, 1, 0 :: nat]))
   \<and> (\<exists>y. bootstrap_sample_generator_3D_next
              (\<lambda>h size s. (NdArray size (map (\<lambda>i. (s + i) mod h) [0..<prod_list size]), s + prod_list size))
              (NdArray [2, 2, 2] [1, 2, 3, 4, 5, 6, 7, 8 :: real]) 1 = (Inr y, 5)
          \<and> shape y = [2, 2, 2]
          \<and> at3 y 1 0 0 = 7 \<and> at3 y 1 0 1 = 6)"
proof -
  let ?samples = "NdArray [2, 2, 2] [1, 2, 3, 4, 5, 6, 7, 8 :: real]"
  let ?ri = "\<lambda>h size s. (NdArray size (map (\<lambda>i. (s + i) mod h) [0..<prod_list size]), s + prod_list size)"
  let ?I = "NdArray [2, 2] [1, 0, 1, 0 :: nat]"
  have h1: "shape ?samples = [2, 2, 2]" by simp
  have h2: "?ri 2 [2, 2] (1::nat) = (?I, 5)" by (simp add: upt_rec)
  have h3: "shape ?I = [2, 2]" "length (elems ?I) = 2 * 2" by simp_all
  have h4: "list_all (\<lambda>i. i < 2) (elems ?I)" by simp
  from bootstrap_sample_generator_3D_next_spec[of ?samples 2 2 2 ?ri 1 ?I 5, OF h1 h2 h3 h4]
  obtain y where y: "bootstrap_sample_generator_3D_next ?ri ?samples 1 = (Inr y, 5)"
    "shape y = [2, 2, 2]"
    "\<forall>k<2. \<forall>r<2. \<forall>c<2. at3 y k r c = at3 ?samples k (at2 ?I r c) c"
    by blast
  have "at3 y 1 0 0 = at3 ?samples 1 (at2 ?I 0 0) 0" "at3 y 1 0 1 = at3 ?samples 1 (at2 ?I 0 1) 1"
    using y(3) by simp_all
  then have v: "at3 y 1 0 0 = 7" "at3 y 1 0 1 = 6" by (simp_all add: at3_def at2_def)
  show ?thesis using h1 h2 h3 h4 y(1,2) v by blast
qed

section \<open>MonteCarloSampling: proofs\<close>

lemma chunk_concat_map_uniform:
  assumes "\<forall>i<n. length (f i) = m" "j < n"
  shows "take m (drop (j * m) (concat (map f [0..<n]))) = f j"
proof (rule nth_equalityI)
  have len: "length (concat (map f [0..<n])) = n * m"
    using assms(1) by (rule length_concat_map_uniform)
  have "Suc j * m \<le> n * m" using assms(2) by (meson Suc_leI mult_le_mono1)
  then have le: "j * m + m \<le> n * m" by simp
  show l: "length (take m (drop (j * m) (concat (map f [0..<n])))) = length (f j)"
    using len le assms by simp
  fix i assume "i < length (take m (drop (j * m) (concat (map f [0..<n]))))"
  then have i: "i < m" using l assms by simp
  then have lt: "j * m + i < n * m" using le by simp
  have "take m (drop (j * m) (concat (map f [0..<n]))) ! i = drop (j * m) (concat (map f [0..<n])) ! i"
    using i by simp
  also have "\<dots> = concat (map f [0..<n]) ! (j * m + i)"
  proof (rule nth_drop)
    have "j * m \<le> j * m + m" by simp
    then show "j * m \<le> length (concat (map f [0..<n]))" using le len by linarith
  qed
  also have "\<dots> = f j ! i" by (rule nth_concat_map_uniform[OF assms(1) assms(2) i])
  finally show "take m (drop (j * m) (concat (map f [0..<n]))) ! i = f j ! i" .
qed

lemma concat_map_nth_upt: "concat (map f xs) = concat (map (\<lambda>i. f (xs ! i)) [0..<length xs])"
proof -
  have "map (\<lambda>i. f (xs ! i)) [0..<length xs] = map f xs"
    by (rule nth_equalityI) simp_all
  then show ?thesis by simp
qed

lemma np_T_2d:
  assumes s: "shape a = [K, n]" and j: "j < n" and k: "k < K"
  shows "shape (np_T a) = [n, K]" "length (elems (np_T a)) = n * K" "at2 (np_T a) j k = at2 a k j"
proof -
  show "shape (np_T a) = [n, K]" by (simp add: np_T_def s)
  show "length (elems (np_T a)) = n * K" by (simp add: np_T_def s mult.commute)
  have lt: "j * K + k < K * n" using flat2_lt[OF j k] by (simp add: mult.commute)
  have "at2 (np_T a) j k = elems a ! ravel [K, n] (rev (unravel [n, K] (j * K + k)))"
    using lt by (simp add: at2_def np_T_def s del: unravel.simps ravel.simps)
  also have "unravel [n, K] (j * K + k) = [j, k]" using k by simp
  finally show "at2 (np_T a) j k = at2 a k j" by (simp add: at2_def s)
qed

lemma np_T_2d_shape: "shape a = [K, n] \<Longrightarrow> shape (np_T a) = [n, K] \<and> length (elems (np_T a)) = n * K"
  by (simp add: np_T_def mult.commute)

lemma items_ok:
  assumes "shape a = n # rest" "list_all (\<lambda>j. j < n) js"
  shows "items a js = Inr (map (\<lambda>j. unbox (NdArray rest (take (prod_list rest)
                                   (drop (j * prod_list rest) (elems a))))) js)"
  using assms(2) by (induction js) (simp_all add: getitem0_def assms(1))

lemma draw_list_ok:
  assumes "list_all2 (\<lambda>d w. rvs_contract d w) ds ws"
  shows "\<exists>draws rs' G'. draw_list ds n rs G temp = (Inr (temp @ draws), rs', G')
           \<and> list_all2 (\<lambda>t w. shape t = [n, w] \<and> length (elems t) = n * w) draws ws
           \<and> (\<forall>k<length ds. draws ! k =
                 standalone (ds ! k) n
                   (generator_after (take k ds) n (case rs of Some g \<Rightarrow> g | None \<Rightarrow> G)))"
  using assms
proof (induction ds ws arbitrary: rs G temp rule: list_all2_induct)
  case Nil
  then show ?case by simp
next
  case (Cons d ds w ws)
  let ?g0 = "case rs of Some g \<Rightarrow> g | None \<Rightarrow> G"
  from Cons.hyps(1) obtain f where f: "rvs d = Some f"
    and c: "\<forall>n g. shape (fst (f n g)) = [n, w] \<and> length (elems (fst (f n g))) = n * w"
    unfolding rvs_contract_def by blast
  obtain a rs1 G1 where call: "call_rvs f n rs G = (a, rs1, G1)" by (cases "call_rvs f n rs G")
  have a: "a = fst (f n ?g0)" and g1: "(case rs1 of Some g \<Rightarrow> g | None \<Rightarrow> G1) = snd (f n ?g0)"
    using call by (auto simp: call_rvs_def split: option.splits)
  from Cons.IH[of rs1 G1 "temp @ [a]"] obtain draws rs' G' where
    IH: "draw_list ds n rs1 G1 (temp @ [a]) = (Inr ((temp @ [a]) @ draws), rs', G')"
        "list_all2 (\<lambda>t w. shape t = [n, w] \<and> length (elems t) = n * w) draws ws"
        "\<forall>k<length ds. draws ! k =
                 standalone (ds ! k) n (generator_after (take k ds) n (snd (f n ?g0)))"
    unfolding g1 by blast
  have run: "draw_list (d # ds) n rs G temp = (Inr (temp @ (a # draws)), rs', G')"
    using f call IH(1) by simp
  have sh: "list_all2 (\<lambda>t w. shape t = [n, w] \<and> length (elems t) = n * w) (a # draws) (w # ws)"
    using IH(2) c a by simp
  have v: "\<forall>k<length (d # ds). (a # draws) ! k =
             standalone ((d # ds) ! k) n (generator_after (take k (d # ds)) n ?g0)"
  proof (intro allI impI)
    fix k assume k: "k < length (d # ds)"
    show "(a # draws) ! k = standalone ((d # ds) ! k) n (generator_after (take k (d # ds)) n ?g0)"
    proof (cases k)
      case 0
      then show ?thesis using a f by (simp add: standalone_def)
    next
      case (Suc k')
      then show ?thesis using k IH(3) f by simp
    qed
  qed
  show ?case using run sh v by blast
qed

lemma getitem0_item:
  assumes "shape t = [n, w]" "j < n"
  shows "getitem0 t j = Inr (item t j)"
  using assms by (simp add: getitem0_def item_def)

lemma build_y_ok:
  assumes "list_all2 (\<lambda>t w. shape t = [n, w] \<and> length (elems t) = n * w) temp ws" "j < n"
  shows "build_y temp j = Inr (map (\<lambda>t. item t j) temp)"
  using assms(1)
  by (induction temp ws rule: list_all2_induct) (simp_all add: getitem0_item[OF _ assms(2)])

lemma build_x_ok:
  assumes "list_all2 (\<lambda>t w. shape t = [n, w] \<and> length (elems t) = n * w) temp ws"
    and "list_all (\<lambda>j. j < n) js"
  shows "build_x temp js xs = (Inr (), xs @ map (\<lambda>j. np_array_list (map (\<lambda>t. item t j) temp)) js)"
  using assms(2)
proof (induction js arbitrary: xs)
  case Nil
  then show ?case by simp
next
  case (Cons j js)
  then have "j < n" "list_all (\<lambda>j. j < n) js" by simp_all
  then show ?case using Cons.IH[of "xs @ [np_array_list (map (\<lambda>t. item t j) temp)]"]
    by (simp add: build_y_ok[OF assms(1)])
qed

lemma np_array_list_stack:
  assumes "xs \<noteq> []" "list_all (\<lambda>z. shape z = rs) xs"
  shows "np_array_list xs = NdArray (length xs # rs) (concat (map elems xs))"
proof -
  obtain y ys where xs: "xs = y # ys" using assms(1) by (cases xs) auto
  have "shape y = rs" using assms(2) xs by simp
  then have "list_all (\<lambda>z. shape z = shape y) xs" using assms(2) by simp
  then show ?thesis using xs \<open>shape y = rs\<close> by (simp add: np_array_list_def)
qed

lemma take1_drop: "j < length xs \<Longrightarrow> take (Suc 0) (drop j xs) = [xs ! j]"
  by (metis Cons_nth_drop_Suc take0 take_Suc_Cons)

lemma sum_list_const1: "sum_list (map (\<lambda>x. Suc 0) xs) = length xs"
  by (induction xs) simp_all

lemma np_concatenate1_same:
  assumes "xs \<noteq> []" "list_all (\<lambda>b. shape b = [K, c]) xs"
  shows "np_concatenate1 xs =
           Inr (NdArray [K, length xs * c]
                  (concat (map (\<lambda>i. concat (map (\<lambda>b. take c (drop (i * c) (elems b))) xs)) [0..<K])))"
proof -
  obtain x0 rest where x0: "xs = x0 # rest" using assms(1) by (cases xs) auto
  have x0s: "shape x0 = [K, c]" using assms(2) x0 by simp
  have cond: "list_all (\<lambda>b. 2 \<le> ndim b \<and> ndim b = ndim x0 \<and> hd (shape b) = hd (shape x0)
                             \<and> drop 2 (shape b) = drop 2 (shape x0)) xs"
    using assms(2) x0s by (simp add: list_all_iff ndim_def)
  have sum: "sum_list (map (\<lambda>b. shape b ! 1) xs) = length xs * c"
    using assms(2) by (induction xs) simp_all
  have inner: "map (\<lambda>b. take (prod_list (tl (shape b))) (drop (i * prod_list (tl (shape b))) (elems b))) xs
             = map (\<lambda>b. take c (drop (i * c) (elems b))) xs" for i
    using assms(2) by (simp add: list_all_iff)
  have "np_concatenate1 xs =
      (if list_all (\<lambda>b. 2 \<le> ndim b \<and> ndim b = ndim x0 \<and> hd (shape b) = hd (shape x0)
                             \<and> drop 2 (shape b) = drop 2 (shape x0)) xs
          then Inr (NdArray (hd (shape x0) # sum_list (map (\<lambda>b. shape b ! 1) xs) # drop 2 (shape x0))
                      (concat (map (\<lambda>i. concat (map (\<lambda>b. take (prod_list (tl (shape b)))
                                                             (drop (i * prod_list (tl (shape b))) (elems b)))
                                                   xs))
                                 [0..<hd (shape x0)])))
          else Inl ValueError)"
    unfolding np_concatenate1_def x0 list.case ..
  then show ?thesis unfolding if_P[OF cond] sum inner by (simp add: x0s)
qed

lemma array_batch:
  assumes temp: "list_all (\<lambda>t. shape t = [n, 1] \<and> length (elems t) = n) temp"
    and ne: "temp \<noteq> []" and n: "0 < n"
  defines "xs \<equiv> map (\<lambda>j. np_array_list (map (\<lambda>t. item t j) temp)) [0..<n]"
  shows "\<exists>h. np_hstack (np_array (XList xs)) = Inr h
           \<and> shape (np_T h) = [n, length temp]
           \<and> length (elems (np_T h)) = n * length temp
           \<and> (\<forall>j<n. \<forall>k<length temp. at2 (np_T h) j k = elems (temp ! k) ! j)"
proof -
  define K where "K = length temp"
  define col where "col = (\<lambda>j. map (\<lambda>t. elems t ! j) temp)"
  define X where "X = (\<lambda>j. NdArray [K, 1] (col j))"
  have tk: "shape (temp ! k) = [n, 1]" "length (elems (temp ! k)) = n" if "k < K" for k
    using temp that by (simp_all add: list_all_length K_def)
  have it: "item t j = NdArray [1] [elems t ! j]" if "t \<in> set temp" "j < n" for t j
  proof -
    have "shape t = [n, 1]" "length (elems t) = n" using temp that(1) by (simp_all add: list_all_iff)
    then show ?thesis using that(2) by (simp add: item_def take1_drop)
  qed
  have Xj: "np_array_list (map (\<lambda>t. item t j) temp) = X j" if "j < n" for j
  proof -
    have m: "map (\<lambda>t. item t j) temp = map (\<lambda>t. NdArray [1] [elems t ! j]) temp"
      using it[OF _ that] by simp
    have "np_array_list (map (\<lambda>t. NdArray [1] [elems t ! j]) temp)
        = NdArray (length (map (\<lambda>t. NdArray [1] [elems t ! j]) temp) # [1])
            (concat (map elems (map (\<lambda>t. NdArray [1] [elems t ! j :: val]) temp)))"
      by (rule np_array_list_stack) (simp_all add: ne list_all_iff)
    also have "concat (map elems (map (\<lambda>t. NdArray [1] [elems t ! j :: val]) temp)) = col j"
      by (simp add: col_def o_def concat_map_singleton)
    finally show ?thesis by (simp add: m X_def K_def)
  qed
  have xs: "xs = map X [0..<n]" unfolding xs_def using Xj by simp
  have xne: "xs \<noteq> []" using n by (simp add: xs)
  have collen: "\<forall>j<n. length (col j) = K" by (simp add: col_def K_def)
  define A where "A = NdArray [n, K, 1] (concat (map col [0..<n]))"
  have A: "np_array (XList xs) = A"
  proof -
    have "np_array_list xs = NdArray (length xs # [K, 1]) (concat (map elems xs))"
      by (rule np_array_list_stack[OF xne]) (simp add: xs X_def list_all_iff)
    then show ?thesis by (simp add: np_array_def xs A_def X_def o_def)
  qed
  have items: "items A [0..<n] = Inr xs"
  proof -
    have "items A [0..<n] = Inr (map (\<lambda>j. unbox (NdArray [K, 1] (take (prod_list [K, 1])
                                   (drop (j * prod_list [K, 1]) (elems A))))) [0..<n])"
      by (rule items_ok) (auto simp: A_def list_all_iff)
    also have "map (\<lambda>j. unbox (NdArray [K, 1] (take (prod_list [K, 1])
                                   (drop (j * prod_list [K, 1]) (elems A))))) [0..<n] = map X [0..<n]"
    proof (rule map_cong[OF refl])
      fix j assume "j \<in> set [0..<n]"
      then have j: "j < n" by simp
      have "take K (drop (j * K) (concat (map col [0..<n]))) = col j"
        by (rule chunk_concat_map_uniform[OF collen j])
      then show "unbox (NdArray [K, 1] (take (prod_list [K, 1])
                                   (drop (j * prod_list [K, 1]) (elems A)))) = X j"
        by (simp add: A_def X_def)
    qed
    finally show ?thesis by (simp add: xs)
  qed
  have K0: "0 < K" using ne by (simp add: K_def)
  define h where "h = NdArray [K, n] (concat (map elems temp))"
  have cat: "np_concatenate1 xs = Inr h"
  proof -
    have same: "list_all (\<lambda>b. shape b = [K, 1]) xs" by (simp add: xs X_def list_all_iff)
    have row: "concat (map (\<lambda>b. take 1 (drop (i * 1) (elems b))) xs) = elems (temp ! i)"
      if i: "i < K" for i
    proof -
      have "concat (map (\<lambda>b. take 1 (drop (i * 1) (elems b))) xs)
          = concat (map (\<lambda>j. [col j ! i]) [0..<n])"
        using i by (simp add: xs X_def o_def take1_drop col_def K_def)
      also have "\<dots> = map (\<lambda>j. elems (temp ! i) ! j) [0..<n]"
        using i by (simp add: concat_map_singleton col_def K_def)
      also have "\<dots> = elems (temp ! i)"
        unfolding tk(2)[OF i, symmetric] by (rule map_nth)
      finally show ?thesis .
    qed
    have "map (\<lambda>i. concat (map (\<lambda>b. take 1 (drop (i * 1) (elems b))) xs)) [0..<K]
            = map (\<lambda>i. elems (temp ! i)) [0..<K]"
      using row by simp
    then have data: "concat (map (\<lambda>i. concat (map (\<lambda>b. take 1 (drop (i * 1) (elems b))) xs)) [0..<K])
            = concat (map elems temp)"
      using concat_map_nth_upt[of elems temp] by (simp only: K_def)
    have "length xs = n" by (simp add: xs)
    then show ?thesis
      unfolding np_concatenate1_same[OF xne same] data by (simp add: h_def)
  qed
  have hst: "np_hstack (np_array (XList xs)) = Inr h"
  proof -
    have al: "map np_atleast_1d xs = xs"
      by (simp add: xs X_def np_atleast_1d_def map_idI)
    have hd: "ndim (hd xs) \<noteq> 1"
      using n by (simp add: xs X_def ndim_def hd_map)
    have sA: "shape A = n # [K, 1]" by (simp add: A_def)
    have "np_hstack A =
        (case items A [0..<n] of
             Inl e \<Rightarrow> Inl e
           | Inr vs \<Rightarrow>
               (let arrs = map np_atleast_1d vs
                in if arrs \<noteq> [] \<and> ndim (hd arrs) = 1
                   then np_concatenate0 arrs else np_concatenate1 arrs))"
      unfolding np_hstack_def sA list.case ..
    also have "\<dots> = np_concatenate1 xs"
      unfolding items sum.case Let_def al using hd by simp
    finally show ?thesis unfolding A cat .
  qed
  have hs: "shape h = [K, n]" by (simp add: h_def)
  have hv: "at2 h k j = elems (temp ! k) ! j" if "k < K" "j < n" for k j
  proof -
    have u: "\<forall>i<K. length (elems (temp ! i)) = n" using tk(2) by blast
    have "concat (map (\<lambda>i. elems (temp ! i)) [0..<K]) ! (k * n + j) = elems (temp ! k) ! j"
      by (rule nth_concat_map_uniform[OF u that])
    then show ?thesis using concat_map_nth_upt[of elems temp] by (simp add: at2_def h_def K_def)
  qed
  have "\<forall>j<n. \<forall>k<K. at2 (np_T h) j k = elems (temp ! k) ! j"
    using np_T_2d(3)[OF hs] hv by simp
  then show ?thesis
    using hst np_T_2d_shape[OF hs] unfolding K_def by blast
qed



lemma run_append_batch:
  assumes B: "shape B = n # rs" and rs: "rs \<noteq> []"
    and batch: "if is_list_array self
                then (\<exists>h. np_hstack (np_array (mcs_x self)) = Inr h \<and> np_T h = B)
                else np_array (mcs_x self) = B"
    and sm: "mcs_samples self = None \<and> m = 0 \<and> eS = [] \<or> mcs_samples self = Some (NdArray (m # rs) eS)"
  shows "run_append self =
           (Inr (), self\<lparr>mcs_samples := Some (NdArray ((m + n) # rs) (eS @ elems B)),
                         mcs_samples_number := Some (int (m + n))\<rparr>)"
proof -
  have Bc: "B = NdArray (n # rs) (elems B)" using B by (metis ndarray.collapse)
  obtain r rs' where rs': "rs = r # rs'" using rs by (cases rs) auto
  have a2: "np_atleast_2d (NdArray (k # rs) e) = NdArray (k # rs) e" for k and e :: "val list"
    by (simp add: np_atleast_2d_def rs')
  have cat: "np_concatenate0 [NdArray (m # rs) eS, B] = Inr (NdArray ((m + n) # rs) (eS @ elems B))"
    by (subst Bc) (simp add: np_concatenate0_def ndim_def)
  have ns: "new_samples self = Inr (NdArray ((m + n) # rs) (eS @ elems B))"
  proof (cases "is_list_array self")
    case True
    then obtain h where h: "np_hstack (np_array (mcs_x self)) = Inr h" "np_T h = B"
      using batch by auto
    from sm show ?thesis
    proof
      assume "mcs_samples self = None \<and> m = 0 \<and> eS = []"
      then show ?thesis using True h Bc by (simp add: new_samples_def)
    next
      assume "mcs_samples self = Some (NdArray (m # rs) eS)"
      then show ?thesis using True h cat by (simp add: new_samples_def)
    qed
  next
    case False
    then have b: "np_array (mcs_x self) = B" using batch by simp
    from sm show ?thesis
    proof
      assume "mcs_samples self = None \<and> m = 0 \<and> eS = []"
      then show ?thesis using False b Bc by (simp add: new_samples_def)
    next
      assume s: "mcs_samples self = Some (NdArray (m # rs) eS)"
      have "np_atleast_2d B = B" by (subst (1 2) Bc) (rule a2)
      then have "np_vstack (NdArray (m # rs) eS) (mcs_x self) = Inr (NdArray ((m + n) # rs) (eS @ elems B))"
        unfolding np_vstack_def b a2 by (simp only: cat)
      then show ?thesis using False s by (simp add: new_samples_def)
    qed
  qed
  show ?thesis unfolding run_append_def ns by (simp add: py_len_def)
qed

lemma run_draw_list:
  assumes d: "mcs_dist_object self = DistList ds" and c: "list_all2 (\<lambda>d w. rvs_contract d w) ds ws"
  shows "\<exists>draws r' g'.
      run_draw n self =
        (Inr (), self\<lparr>mcs_random_state := r', np_random := g',
                      mcs_x := XList (map (\<lambda>j. np_array_list (map (\<lambda>t. item t j) draws)) [0..<n])\<rparr>)
    \<and> list_all2 (\<lambda>t w. shape t = [n, w] \<and> length (elems t) = n * w) draws ws
    \<and> (\<forall>k<length ds. draws ! k =
          standalone (ds ! k) n
            (generator_after (take k ds) n
               (case mcs_random_state self of Some g \<Rightarrow> g | None \<Rightarrow> np_random self)))"
proof -
  from draw_list_ok[OF c, of n "mcs_random_state self" "np_random self" "[]"]
  obtain draws r' g' where
    dl: "draw_list ds n (mcs_random_state self) (np_random self) [] = (Inr ([] @ draws), r', g')"
    and sh: "list_all2 (\<lambda>t w. shape t = [n, w] \<and> length (elems t) = n * w) draws ws"
    and v: "\<forall>k<length ds. draws ! k =
          standalone (ds ! k) n
            (generator_after (take k ds) n
               (case mcs_random_state self of Some g \<Rightarrow> g | None \<Rightarrow> np_random self))"
    by blast
  have bx: "build_x draws [0..<n] [] =
      (Inr (), [] @ map (\<lambda>j. np_array_list (map (\<lambda>t. item t j) draws)) [0..<n])"
    by (rule build_x_ok[OF sh]) (simp add: list_all_iff)
  have "run_draw n self =
        (Inr (), self\<lparr>mcs_random_state := r', np_random := g',
                      mcs_x := XList (map (\<lambda>j. np_array_list (map (\<lambda>t. item t j) draws)) [0..<n])\<rparr>)"
    using dl bx by (simp add: run_draw_def d)
  then show ?thesis using sh v by blast
qed

lemma is_list_array_upd:
  "is_list_array (s\<lparr>mcs_random_state := r, np_random := g, mcs_x := x\<rparr>) = is_list_array s"
  by (simp add: is_list_array_def split: dist_object.splits)


lemma length_filter_all: "(length (filter P xs) = length xs) = list_all P xs"
proof (induction xs)
  case Nil
  show ?case by simp
next
  case (Cons x xs)
  have le: "length (filter P xs) \<le> length xs" by (rule length_filter_le)
  show ?case
  proof (cases "P x")
    case True
    then show ?thesis using Cons by simp
  next
    case False
    have "length (filter P xs) \<noteq> Suc (length xs)" using le by linarith
    then show ?thesis using False by simp
  qed
qed



lemma widths_one:
  "list_all (\<lambda>d. dist_class d = DistributionContinuous1D \<and> dist_ok d) ds \<Longrightarrow>
   list_all2 (\<lambda>d w. rvs_contract d w) ds (replicate (length ds) 1)"
  by (induction ds) (auto simp: dist_ok_def)


lemma step_array:
  assumes d: "mcs_dist_object s = DistList ds" and arr: "mcs_array s" and ne: "ds \<noteq> []"
    and c: "list_all2 (\<lambda>d w. rvs_contract d w) ds (replicate (length ds) 1)" and n: "0 < n"
  shows "\<exists>x' r' g' B. run_draw n s = (Inr (), s\<lparr>mcs_random_state := r', np_random := g', mcs_x := x'\<rparr>)
         \<and> shape B = n # [length ds] \<and> length (elems B) = n * prod_list [length ds]
         \<and> (if is_list_array s then (\<exists>h. np_hstack (np_array x') = Inr h \<and> np_T h = B)
             else np_array x' = B)
         \<and> (\<forall>k<length ds. \<forall>j<n. at2 B j k =
               elems (standalone (ds ! k) n
                        (generator_after (take k ds) n
                           (case mcs_random_state s of Some g \<Rightarrow> g | None \<Rightarrow> np_random s))) ! j)"
proof -
  from run_draw_list[OF d c, of n] obtain draws r' g' where
    rd: "run_draw n s =
        (Inr (), s\<lparr>mcs_random_state := r', np_random := g',
                      mcs_x := XList (map (\<lambda>j. np_array_list (map (\<lambda>t. item t j) draws)) [0..<n])\<rparr>)"
    and sh: "list_all2 (\<lambda>t w. shape t = [n, w] \<and> length (elems t) = n * w) draws (replicate (length ds) 1)"
    and v: "\<forall>k<length ds. draws ! k =
          standalone (ds ! k) n
            (generator_after (take k ds) n
               (case mcs_random_state s of Some g \<Rightarrow> g | None \<Rightarrow> np_random s))"
    by blast
  have len: "length draws = length ds" using sh by (simp add: list_all2_lengthD)
  have dne: "draws \<noteq> []" using ne len by auto
  have one: "list_all (\<lambda>t. shape t = [n, 1] \<and> length (elems t) = n) draws"
    using sh by (simp add: list_all2_conv_all_nth list_all_length)
  from array_batch[OF one dne n] obtain h where
    h: "np_hstack (np_array (XList (map (\<lambda>j. np_array_list (map (\<lambda>t. item t j) draws)) [0..<n]))) = Inr h"
       "shape (np_T h) = [n, length draws]"
       "length (elems (np_T h)) = n * length draws"
       "\<forall>j<n. \<forall>k<length draws. at2 (np_T h) j k = elems (draws ! k) ! j"
    by blast
  have la: "is_list_array s" using arr by (simp add: is_list_array_def d)
  show ?thesis
    using rd h la v unfolding len
    by (intro exI[of _ "XList (map (\<lambda>j. np_array_list (map (\<lambda>t. item t j) draws)) [0..<n])"]
        exI[of _ r'] exI[of _ g'] exI[of _ "np_T h"]) simp
qed


lemma run_append_consistent:
  assumes "run_append self = (Inr u, self')"
  shows "\<exists>a l. mcs_samples self' = Some a \<and> py_len a = Inr l \<and> mcs_samples_number self' = Some (int l)"
  using assms by (auto simp: run_append_def split: sum.splits)

lemma run_consistent:
  assumes "run RandomState n random_state self = (Inr u, self')"
  shows "\<exists>a l. mcs_samples self' = Some a \<and> py_len a = Inr l \<and> mcs_samples_number self' = Some (int l)"
proof -
  from assms obtain self1 where "run_append self1 = (Inr u, self')"
    by (auto simp: run_def split: if_splits prod.splits sum.splits)
  then show ?thesis by (rule run_append_consistent)
qed

lemma init_none:
  "MonteCarloSampling_init RS d None rs g =
     (Inr (), \<lparr>mcs_dist_object = d,
                   mcs_list = fst (process_distributions d),
                   mcs_array = snd (process_distributions d),
                   mcs_random_state = process_random_state RS rs,
                   mcs_samples = None,
                   mcs_x = XNone,
                   mcs_samplesU01 = None,
                   mcs_samples_number = None,
                   np_random = g\<rparr>)"
  by (simp add: MonteCarloSampling_init_def)

lemma eval_two_counter:
  "mcs_samples (snd (run nat 5 RsNone
       (snd (MonteCarloSampling_init nat (DistList [counter_dist, counter_dist]) None (RsSeed 0) 0))))
   = Some (NdArray [5, 2] [F 0, F 5, F 1, F 6, F 2, F 7, F 3, F 8, F 4, F 9])"
  by code_simp

lemma eval_standalone:
  "standalone counter_dist 5 0 = NdArray [5, 1] [F 0, F 1, F 2, F 3, F 4]"
  by code_simp

lemma counter_contract: "rvs_contract counter_dist 1"
  by (simp add: rvs_contract_def counter_dist_def counter_rvs_def)

lemma counter_ok: "dist_ok counter_dist"
  using counter_contract by (simp add: dist_ok_def counter_dist_def)

lemma eval_single:
  "fst (run nat 2 RsNone (snd (MonteCarloSampling_init nat (Single counter_dist) None RsNone 0))) = Inr ()"
  "fst (MonteCarloSampling_init nat (Single counter_dist) (Some 2) RsNone 0) = Inr ()"
  "mcs_samples (snd (run nat 2 RsNone (snd (MonteCarloSampling_init nat (Single counter_dist) None RsNone 0))))
     = Some (NdArray [2, 1] [F 0, F 1])"
  "mcs_samples_number (snd (run nat 2 RsNone (snd (MonteCarloSampling_init nat (Single counter_dist) None RsNone 0))))
     = Some 2"
  by code_simp+





text \<open>
  Claim C5, as amended. For a non-empty list of single-variable continuous distributions
  that keep the contract of \<open>rvs\<close> and a positive count \<open>n\<close>, the first \<open>run\<close> produces an
  array of shape \<open>(n, K)\<close> whose column \<open>k\<close> holds the draws of distribution \<open>k\<close>, taken
  from the generator as the draws of distributions \<open>0, ..., k - 1\<close> left it. Column 0 is
  standalone sampling of distribution 0 from the generator the call starts with; every
  later column continues the same stream.
\<close>

theorem run_columns:
  assumes ok: "sampler_ok self" and d: "mcs_dist_object self = DistList ds"
    and one: "list_all (\<lambda>d. dist_class d = DistributionContinuous1D) ds"
    and fresh: "mcs_samples self = None" and n: "0 < n"
  shows "\<exists>self' S.
      run RandomState n random_state self = (Inr (), self')
    \<and> mcs_samples self' = Some S
    \<and> shape S = [nat n, length ds]
    \<and> length (elems S) = nat n * length ds
    \<and> (\<forall>k<length ds. \<forall>j<nat n.
          at2 S j k =
            elems (standalone (ds ! k) (nat n)
                     (generator_after (take k ds) (nat n)
                        (generator_of RandomState random_state self))) ! j)"
proof -
  have ne: "ds \<noteq> []" and oks: "list_all dist_ok ds" and arr: "mcs_array self"
    using ok d one by (simp_all add: sampler_ok_def process_distributions_def length_filter_all)
  have "list_all (\<lambda>d. dist_class d = DistributionContinuous1D \<and> dist_ok d) ds"
    using one oks by (simp add: list_all_iff)
  then have c: "list_all2 (\<lambda>d w. rvs_contract d w) ds (replicate (length ds) 1)"
    by (rule widths_one)
  define new where "new = (case random_state of RsNone \<Rightarrow> mcs_random_state self
                               | _ \<Rightarrow> process_random_state RandomState random_state)"
  define sa where "sa = self\<lparr>mcs_random_state := new\<rparr>"
  have sad: "mcs_dist_object sa = DistList ds" "mcs_array sa" using d arr by (simp_all add: sa_def)
  have g0: "(case mcs_random_state sa of Some g \<Rightarrow> g | None \<Rightarrow> np_random sa)
            = generator_of RandomState random_state self"
  proof -
    have e: "np_random sa = np_random self" "mcs_random_state sa = new" by (simp_all add: sa_def)
    show ?thesis unfolding e generator_of_def new_def ..
  qed
  have npos: "0 < nat n" using n by simp
  from step_array[OF sad ne c npos] obtain x' r' g' B where
    rd: "run_draw (nat n) sa = (Inr (), sa\<lparr>mcs_random_state := r', np_random := g', mcs_x := x'\<rparr>)"
    and B: "shape B = nat n # [length ds]" "length (elems B) = nat n * prod_list [length ds]"
    and b: "if is_list_array sa then (\<exists>h. np_hstack (np_array x') = Inr h \<and> np_T h = B)
             else np_array x' = B"
    and v: "\<forall>k<length ds. \<forall>j<nat n. at2 B j k =
               elems (standalone (ds ! k) (nat n)
                        (generator_after (take k ds) (nat n)
                           (generator_of RandomState random_state self))) ! j"
    unfolding g0 by blast
  define sb where "sb = sa\<lparr>mcs_random_state := r', np_random := g', mcs_x := x'\<rparr>"
  have b': "if is_list_array sb then (\<exists>h. np_hstack (np_array (mcs_x sb)) = Inr h \<and> np_T h = B)
             else np_array (mcs_x sb) = B"
    using b by (simp add: sb_def is_list_array_upd)
  have sm: "mcs_samples sb = None \<and> (0::nat) = 0 \<and> ([]::val list) = [] \<or>
             mcs_samples sb = Some (NdArray (0 # [length ds]) [])"
    using fresh by (simp add: sb_def sa_def)
  have Bc: "NdArray [nat n, length ds] (elems B) = B" using B(1) by (metis ndarray.collapse)
  have ap: "run_append sb = (Inr (), sb\<lparr>mcs_samples := Some B, mcs_samples_number := Some (int (nat n))\<rparr>)"
    using run_append_batch[OF B(1) _ b' sm] by (simp add: Bc)
  have r: "run RandomState n random_state self
         = (Inr (), sb\<lparr>mcs_samples := Some B, mcs_samples_number := Some (int (nat n))\<rparr>)"
    using n rd ap by (simp add: run_def PositiveInteger_def new_def sa_def sb_def)
  show ?thesis
    using r B v
    by (intro exI[of _ "sb\<lparr>mcs_samples := Some B, mcs_samples_number := Some (int (nat n))\<rparr>"]
        exI[of _ B]) simp
qed

theorem run_columns_witness:
  "sampler_ok (snd (MonteCarloSampling_init nat (DistList [counter_dist, counter_dist]) None (RsSeed 0) 0))
   \<and> mcs_dist_object (snd (MonteCarloSampling_init nat (DistList [counter_dist, counter_dist]) None (RsSeed 0) 0))
       = DistList [counter_dist, counter_dist]
   \<and> list_all (\<lambda>d. dist_class d = DistributionContinuous1D) [counter_dist, counter_dist]
   \<and> mcs_samples (snd (MonteCarloSampling_init nat (DistList [counter_dist, counter_dist]) None (RsSeed 0) 0))
       = None
   \<and> (0::int) < 5
   \<and> (\<exists>self' S.
        run nat 5 RsNone
          (snd (MonteCarloSampling_init nat (DistList [counter_dist, counter_dist]) None (RsSeed 0) 0))
          = (Inr (), self')
      \<and> mcs_samples self' = Some S
      \<and> shape S = [5, 2]
      \<and> at2 S 0 0 = elems (standalone counter_dist 5 0) ! 0
      \<and> at2 S 0 1 = elems (standalone counter_dist 5 (snd (counter_rvs 5 0))) ! 0
      \<and> at2 S 0 0 = F 0 \<and> at2 S 0 1 = F 5)"
proof -
  let ?ds = "[counter_dist, counter_dist]"
  let ?s0 = "snd (MonteCarloSampling_init nat (DistList ?ds) None (RsSeed 0) 0)"
  have h1: "sampler_ok ?s0"
    using counter_ok by (simp add: init_none sampler_ok_def process_distributions_def counter_dist_def)
  have h2: "mcs_dist_object ?s0 = DistList ?ds" by (simp add: init_none)
  have h3: "list_all (\<lambda>d. dist_class d = DistributionContinuous1D) ?ds" by (simp add: counter_dist_def)
  have h4: "mcs_samples ?s0 = None" by (simp add: init_none)
  have h5: "(0::int) < 5" by simp
  have g: "generator_of nat RsNone ?s0 = 0"
    by (simp add: generator_of_def init_none process_random_state_def)
  have ga: "generator_after (take 1 ?ds) 5 0 = snd (counter_rvs 5 0)"
    by (simp add: counter_dist_def)
  from run_columns[OF h1 h2 h3 h4 h5, of nat RsNone] obtain self' S where
    r: "run nat 5 RsNone ?s0 = (Inr (), self')" "mcs_samples self' = Some S"
       "shape S = [nat 5, length ?ds]"
       "\<forall>k<length ?ds. \<forall>j<nat 5. at2 S j k =
            elems (standalone (?ds ! k) (nat 5) (generator_after (take k ?ds) (nat 5)
                     (generator_of nat RsNone ?s0))) ! j"
    by blast
  have c0: "at2 S 0 0 = elems (standalone counter_dist 5 0) ! 0"
    using r(4)[rule_format, of 0 0] by (simp add: g)
  have c1: "at2 S 0 1 = elems (standalone counter_dist 5 (snd (counter_rvs 5 0))) ! 0"
    using r(4)[rule_format, of 1 0] ga by (simp add: g)
  have v0: "elems (standalone counter_dist 5 0) ! 0 = F 0"
    by (simp add: eval_standalone)
  have v1: "elems (standalone counter_dist 5 (snd (counter_rvs 5 0))) ! 0 = F 5"
    by code_simp
  show ?thesis using h1 h2 h3 h4 r(1,2,3) c0 c1 v0 v1 by simp
qed

text \<open>
  The claim as stated, with column 1 matching standalone sampling of distribution 1 under
  the same seed, fails: with two copies of one distribution and seed 0, column 0 holds the
  draws a standalone call gives from the seeded generator, and column 1 holds the next
  five draws of the stream, not the same five again.
\<close>

theorem second_column_counterexample:
  "mcs_samples (snd (run nat 5 RsNone
       (snd (MonteCarloSampling_init nat (DistList [counter_dist, counter_dist]) None (RsSeed 0) 0))))
     = Some (NdArray [5, 2] [F 0, F 5, F 1, F 6, F 2, F 7, F 3, F 8, F 4, F 9])
   \<and> standalone counter_dist 5 (nat 0) = NdArray [5, 1] [F 0, F 1, F 2, F 3, F 4]
   \<and> at2 (NdArray [5, 2] [F 0, F 5, F 1, F 6, F 2, F 7, F 3, F 8, F 4, F 9]) 0 1 = F 5
   \<and> elems (standalone counter_dist 5 (nat 0)) ! 0 = F 0
   \<and> at2 (NdArray [5, 2] [F 0, F 5, F 1, F 6, F 2, F 7, F 3, F 8, F 4, F 9]) 0 1
       \<noteq> elems (standalone counter_dist 5 (nat 0)) ! 0"
  using eval_two_counter eval_standalone by (simp add: at2_def)

text \<open>
  Claim C6 (the code departs from it). For a single distribution without \<open>rvs\<close>, \<open>run\<close>
  raises nothing where the method is missing: the first call sets \<open>samples\<close> to
  \<open>np.array(None)\<close> and fails only at \<open>len\<close>, with a TypeError and the attribute already
  overwritten; the second call returns normally with \<open>samples_number = 2\<close>. The sibling
  path for a list raises the ValueError at the missing method and leaves the state as it
  was.
\<close>

theorem single_without_rvs:
  "fst (run nat 5 RsNone (snd (MonteCarloSampling_init nat (Single no_rvs) None RsNone 0)))
     = Inl TypeError
   \<and> mcs_samples (snd (run nat 5 RsNone (snd (MonteCarloSampling_init nat (Single no_rvs) None RsNone 0))))
     = Some (NdArray [] [PyNone])
   \<and> fst (run nat 5 RsNone
           (snd (run nat 5 RsNone (snd (MonteCarloSampling_init nat (Single no_rvs) None RsNone 0)))))
     = Inr ()
   \<and> mcs_samples_number (snd (run nat 5 RsNone
           (snd (run nat 5 RsNone (snd (MonteCarloSampling_init nat (Single no_rvs) None RsNone 0))))))
     = Some 2
   \<and> run nat 5 RsNone (snd (MonteCarloSampling_init nat (DistList [no_rvs]) None RsNone 0))
     = (Inl ValueError, snd (MonteCarloSampling_init nat (DistList [no_rvs]) None RsNone 0))"
proof -
  let ?s0 = "snd (MonteCarloSampling_init nat (Single no_rvs) None RsNone 0)"
  have r1: "run nat 5 RsNone ?s0 = (Inl TypeError, ?s0\<lparr>mcs_samples := Some (NdArray [] [PyNone])\<rparr>)"
    by (simp add: init_none run_def PositiveInteger_def run_draw_def no_rvs_def run_append_def
        new_samples_def is_list_array_def np_array_def py_len_def process_random_state_def)
  have r2: "run nat 5 RsNone (?s0\<lparr>mcs_samples := Some (NdArray [] [PyNone])\<rparr>)
      = (Inr (), ?s0\<lparr>mcs_samples := Some (NdArray [1 + 1, 1] [PyNone, PyNone]),
                       mcs_samples_number := Some 2\<rparr>)"
    by (simp add: init_none run_def PositiveInteger_def run_draw_def no_rvs_def run_append_def
        new_samples_def is_list_array_def np_array_def py_len_def process_random_state_def
        np_vstack_def np_atleast_2d_def np_concatenate0_def ndim_def)
  have r3: "run nat 5 RsNone (snd (MonteCarloSampling_init nat (DistList [no_rvs]) None RsNone 0))
     = (Inl ValueError, snd (MonteCarloSampling_init nat (DistList [no_rvs]) None RsNone 0))"
    by (simp add: init_none run_def PositiveInteger_def run_draw_def no_rvs_def
        process_random_state_def)
  show ?thesis by (simp add: r1 r2 r3)
qed

text \<open>
  Claim C7. A call of \<open>run\<close> with a count of zero or below returns the input-validation
  error of the \<open>@beartype\<close> check and leaves every attribute of the sampler, and the
  generators, as they were.
\<close>

theorem run_rejects_nonpositive_count:
  assumes "samples_number \<le> 0"
  shows "run RandomState samples_number random_state self = (Inl BeartypeCallHintParamViolation, self)"
  using assms by (simp add: run_def PositiveInteger_def)

theorem run_rejects_nonpositive_count_witness:
  "(- 1 :: int) \<le> 0
   \<and> run nat (- 1) (RsSeed 7) (snd (MonteCarloSampling_init nat (Single counter_dist) (Some 2) RsNone 0))
     = (Inl BeartypeCallHintParamViolation,
        snd (MonteCarloSampling_init nat (Single counter_dist) (Some 2) RsNone 0))"
proof -
  have h: "(- 1 :: int) \<le> 0" by simp
  show ?thesis using h run_rejects_nonpositive_count[OF h] by simp
qed

text \<open>
  Claim C8. After every call of \<open>run\<close> that returns normally, and after a construction
  that calls it, \<open>samples\<close> is set and \<open>samples_number\<close> is its length.
\<close>

theorem samples_number_is_length:
  "(run RandomState n random_state self = (Inr (), self') \<longrightarrow>
      (\<exists>a l. mcs_samples self' = Some a \<and> py_len a = Inr l
             \<and> mcs_samples_number self' = Some (int l)))
   \<and> (MonteCarloSampling_init RandomState distributions (Some n) random_state global = (Inr (), self'') \<longrightarrow>
      (\<exists>a l. mcs_samples self'' = Some a \<and> py_len a = Inr l
             \<and> mcs_samples_number self'' = Some (int l)))"
proof (intro conjI impI)
  assume "run RandomState n random_state self = (Inr (), self')"
  then show "\<exists>a l. mcs_samples self' = Some a \<and> py_len a = Inr l
             \<and> mcs_samples_number self' = Some (int l)"
    by (rule run_consistent)
next
  assume "MonteCarloSampling_init RandomState distributions (Some n) random_state global = (Inr (), self'')"
  then show "\<exists>a l. mcs_samples self'' = Some a \<and> py_len a = Inr l
             \<and> mcs_samples_number self'' = Some (int l)"
    unfolding MonteCarloSampling_init_def Let_def option.case by (rule run_consistent)
qed

theorem samples_number_is_length_witness:
  "run nat 2 RsNone (snd (MonteCarloSampling_init nat (Single counter_dist) None RsNone 0))
     = (Inr (), snd (run nat 2 RsNone (snd (MonteCarloSampling_init nat (Single counter_dist) None RsNone 0))))
   \<and> MonteCarloSampling_init nat (Single counter_dist) (Some 2) RsNone 0
     = (Inr (), snd (MonteCarloSampling_init nat (Single counter_dist) (Some 2) RsNone 0))
   \<and> mcs_samples (snd (run nat 2 RsNone (snd (MonteCarloSampling_init nat (Single counter_dist) None RsNone 0))))
     = Some (NdArray [2, 1] [F 0, F 1])
   \<and> mcs_samples_number (snd (run nat 2 RsNone (snd (MonteCarloSampling_init nat (Single counter_dist) None RsNone 0))))
     = Some 2
   \<and> (\<exists>a l. mcs_samples (snd (MonteCarloSampling_init nat (Single counter_dist) (Some 2) RsNone 0)) = Some a
          \<and> py_len a = Inr l
          \<and> mcs_samples_number (snd (MonteCarloSampling_init nat (Single counter_dist) (Some 2) RsNone 0))
              = Some (int l))"
proof -
  let ?s0 = "snd (MonteCarloSampling_init nat (Single counter_dist) None RsNone 0)"
  have h1: "run nat 2 RsNone ?s0 = (Inr (), snd (run nat 2 RsNone ?s0))"
    using eval_single(1) by (metis prod.collapse)
  have h2: "MonteCarloSampling_init nat (Single counter_dist) (Some 2) RsNone 0
     = (Inr (), snd (MonteCarloSampling_init nat (Single counter_dist) (Some 2) RsNone 0))"
    using eval_single(2) by (metis prod.collapse)
  note t = samples_number_is_length[where RandomState = nat and n = 2 and random_state = RsNone
      and self = ?s0 and self' = "snd (run nat 2 RsNone ?s0)"
      and distributions = "Single counter_dist" and global = 0
      and self'' = "snd (MonteCarloSampling_init nat (Single counter_dist) (Some 2) RsNone 0)"]
  show ?thesis using t h1 h2 eval_single(3,4) by blast
qed

end
